theory Spec2Isabelle
  imports Main "HOL-Library.Word" "HOL-Library.Sublist"
begin

section \<open>imagefiltercpp: the buffer hand-off between an export chain and an import chain\<close>

text \<open>
  The program is the single function \<open>main\<close> of \<^verbatim>\<open>src/imagefiltercpp.cpp\<close>. It has three
  parts:
  \<^item> the configuration checks, the construction of the chains (lines 58 to 106) and the
    start-up and shutdown sequence of the main thread (lines 156 and 184 to 201);
  \<^item> the worker \<open>process\<close> that drains \<open>processing_queue\<close>, draws a crosshair into each
    buffer and pushes it to the import chain (lines 108 to 155);
  \<^item> the export callback that leases an import buffer, copies the frame and enqueues it
    (lines 158 to 182).
  The collaborators (the JSON parser, the chains, the log) are outside the sources: what
  they return is an input of the model, and the calls made on them are recorded in order.
\<close>

subsection \<open>Configuration and startup (lines 58 to 106, 156 and 184 to 201)\<close>

text \<open>
  A value of \<open>nlohmann::json\<close>. An object is the list of its members, whose keys are
  distinct (it is a \<open>std::map\<close>), so \<open>map_of\<close> looks a key up. Numbers are integers here:
  the program never reads one.
\<close>

datatype json =
    JNull
  | JBool bool
  | JNumber int
  | JString string
  | JArray "json list"
  | JObject "(string \<times> json) list"

text \<open>\<open>config.find(key)\<close>: the member, and \<open>end()\<close> on anything that is not an object.\<close>

fun json_find :: "json \<Rightarrow> string \<Rightarrow> json option" where
  "json_find (JObject members) key = map_of members key"
| "json_find _ key = None"

fun is_array :: "json \<Rightarrow> bool" where
  "is_array (JArray _) = True"
| "is_array _ = False"

text \<open>\<open>empty()\<close>: \<open>null\<close> is empty, a container is empty when it has no element.\<close>

fun json_empty :: "json \<Rightarrow> bool" where
  "json_empty JNull = True"
| "json_empty (JArray elems) = (elems = [])"
| "json_empty (JObject members) = (members = [])"
| "json_empty _ = False"

text \<open>What the range-based \<open>for\<close> of line 96 iterates over.\<close>

fun elements :: "json \<Rightarrow> json list" where
  "elements (JArray elems) = elems"
| "elements (JObject members) = map snd members"
| "elements JNull = []"
| "elements j = [j]"

text \<open>
  What ends the process other than a \<open>return\<close> from \<open>main\<close>: an exception of the JSON
  library that nothing catches (\<open>type_error\<close> when \<open>operator[]\<close> is used on a value that is
  not an object or \<open>get<std::string>\<close> on one that is not a string), the failed assertion of
  the \<open>const\<close> \<open>operator[]\<close> on a missing key, or the call through a null
  \<open>shared_ptr\<close> that \<open>chains[key]\<close> inserted for a missing key.
\<close>

datatype fault = JsonTypeError | JsonMissingKey | NullChain

text \<open>\<open>chain_config["id"].get<std::string>()\<close> (line 105), \<open>chain_config\<close> being \<open>const\<close>.\<close>

fun chain_id :: "json \<Rightarrow> fault + string" where
  "chain_id (JObject members) =
     (case map_of members ''id'' of
        None \<Rightarrow> Inl JsonMissingKey
      | Some (JString s) \<Rightarrow> Inr s
      | Some _ \<Rightarrow> Inl JsonTypeError)"
| "chain_id _ = Inl JsonTypeError"

text \<open>
  An \<open>iff::chain\<close> object: the number of its construction (the objects are told apart by
  it) and the configuration it was made from.
\<close>

type_synonym chain = "nat \<times> json"

text \<open>
  What the main thread does, in order. Every call on a collaborator is taken to return.
  \<open>DestroyChain\<close> is the destructor run when the last \<open>shared_ptr\<close> to a chain goes away.
\<close>

datatype action =
    Cerr string
  | Initialize json
  | ConstructChain chain
  | DestroyChain chain
  | StartThread
  | SetExportCallback chain
  | Execute chain json
  | LogInfo string
  | GetChar
  | SetStopFlag
  | NotifyWorker
  | JoinThread
  | ClearChains
  | Finalize

datatype exit = Exit nat | Abort fault

text \<open>The values of \<^verbatim>\<open><cstdlib>\<close> on the platforms the sample is built for.\<close>

definition EXIT_SUCCESS :: nat where
  "EXIT_SUCCESS = 0"

definition EXIT_FAILURE :: nat where
  "EXIT_FAILURE = 1"

text \<open>
  The loop of lines 96 to 106, \<open>registry\<close> being the map \<open>chains\<close> of the source (a
  constant of HOL has that name) and \<open>n\<close> the number of chains constructed so far. The
  chain is constructed first; then its id is read; then \<open>chains.emplace\<close> inserts it unless
  the key is present, in which case the only pointer to the new chain is dropped before the
  next iteration.
\<close>

fun construct_chains ::
  "json list \<Rightarrow> nat \<Rightarrow> (string \<rightharpoonup> chain) \<times> action list
    \<Rightarrow> fault \<times> action list + (string \<rightharpoonup> chain) \<times> action list" where
  "construct_chains [] n (registry, acts) = Inr (registry, acts)"
| "construct_chains (chain_config # rest) n (registry, acts) =
     (let chain = (n, chain_config); acts = acts @ [ConstructChain chain] in
      case chain_id chain_config of
        Inl f \<Rightarrow> Inl (f, acts)
      | Inr key \<Rightarrow>
          (case registry key of
             None \<Rightarrow> construct_chains rest (Suc n) (registry(key \<mapsto> chain), acts)
           | Some _ \<Rightarrow> construct_chains rest (Suc n) (registry, acts @ [DestroyChain chain])))"

text \<open>\<open>nlohmann::json{{"exporter", {{"command", c}}}}\<close>\<close>

definition exporter_command :: "string \<Rightarrow> json" where
  "exporter_command c = JObject [(''exporter'', JObject [(''command'', JString c)])]"

text \<open>
  Lines 156 to 201 as the main thread runs them: the worker thread is started, then
  \<open>chains["export"]\<close> is called through. The worker and the callback themselves are the
  subject of the next subsections; here they matter in one way. \<open>main\<close> never looks
  \<open>chains["import"]\<close> up itself, but the callback does at every exported frame (line 162),
  and calls through the null pointer that the lookup inserts when no chain has that id,
  which ends the process. (The worker's lookup, line 146, comes only after a callback got a
  buffer from that chain.) So the run depends on \<open>first_frame\<close>: \<open>None\<close> when the export
  chain delivers no frame between the commands "on" and "off", \<open>Some k\<close> when its first frame
  comes after the main thread has gone \<open>k\<close> actions beyond the command "on".
\<close>

definition run_pipeline ::
  "(string \<rightharpoonup> chain) \<Rightarrow> nat option \<Rightarrow> action list \<Rightarrow> action list \<times> exit" where
  "run_pipeline registry first_frame acts =
     (case registry ''export'' of
        None \<Rightarrow> (acts @ [StartThread], Abort NullChain)
      | Some export \<Rightarrow>
          (case (first_frame, registry ''import'') of
             (Some k, None) \<Rightarrow>
               (acts @ [StartThread, SetExportCallback export,
                  Execute export (exporter_command ''on'')]
                  @ take k [LogInfo ''Press Enter to terminate the program'', GetChar,
                      Execute export (exporter_command ''off'')],
                Abort NullChain)
           | _ \<Rightarrow>
               (acts @ [StartThread, SetExportCallback export,
                  Execute export (exporter_command ''on''),
                  LogInfo ''Press Enter to terminate the program'', GetChar,
                  Execute export (exporter_command ''off''),
                  SetStopFlag, NotifyWorker, JoinThread, ClearChains, Finalize],
                Exit EXIT_SUCCESS)))"

text \<open>
  \<open>main\<close>, given what \<open>nlohmann::json::parse\<close> made of the file: \<open>Inl what\<close> when it
  threw (\<open>what\<close> is \<open>e.what()\<close>), else the value; and given \<open>first_frame\<close> as above.
\<close>

definition main :: "string + json \<Rightarrow> nat option \<Rightarrow> action list \<times> exit" where
  "main parsed first_frame =
     (case parsed of
        Inl what \<Rightarrow>
          ([Cerr (''Invalid configuration provided: '' @ what @ ''\<newline>'')], Exit EXIT_FAILURE)
      | Inr config \<Rightarrow>
          (case json_find config ''chains'' of
             None \<Rightarrow>
               ([Cerr ''Invalid configuration provided: missing `chains` section\<newline>''],
                Exit EXIT_FAILURE)
           | Some it_chains \<Rightarrow>
               if \<not> is_array it_chains then
                 ([Cerr ''Invalid configuration provided: section `chains` must be an array\<newline>''],
                  Exit EXIT_FAILURE)
               else if json_empty it_chains then
                 ([Cerr ''Invalid configuration provided: section `chains` must not be empty\<newline>''],
                  Exit EXIT_FAILURE)
               else
                 (case json_find config ''IFF'' of
                    None \<Rightarrow>
                      ([Cerr ''Invalid configuration provided: missing `IFF` section\<newline>''],
                       Exit EXIT_FAILURE)
                  | Some it_iff \<Rightarrow>
                      (case construct_chains (elements it_chains) 0 (Map.empty, [Initialize it_iff]) of
                         Inl (f, acts) \<Rightarrow> (acts, Abort f)
                       | Inr (registry, acts) \<Rightarrow> run_pipeline registry first_frame acts))))"

text \<open>
  For the statements about the loop: the chain definitions with their ids and the chain
  objects made from them, numbered from \<open>n\<close>; and the log in which every chain is
  constructed, and destroyed at once when an earlier definition (or an id already seen) has
  its id.
\<close>

fun keyed :: "string list \<Rightarrow> nat \<Rightarrow> json list \<Rightarrow> (string \<times> chain) list" where
  "keyed (key # ids) n (cfg # cfgs) = (key, (n, cfg)) # keyed ids (Suc n) cfgs"
| "keyed _ n _ = []"

fun construction_log :: "string set \<Rightarrow> (string \<times> chain) list \<Rightarrow> action list" where
  "construction_log seen [] = []"
| "construction_log seen ((key, chain) # rest) =
     (if key \<in> seen then [ConstructChain chain, DestroyChain chain] else [ConstructChain chain])
       @ construction_log (insert key seen) rest"

subsection \<open>Machine integers and memory\<close>

type_synonym u8 = "8 word"
type_synonym u32 = "32 word"

text \<open>\<open>size_t\<close> of the 64-bit targets the sample is built for (x86-64, aarch64).\<close>

type_synonym size_t = "64 word"

text \<open>
  The memory a pointer addresses, by byte offset from the pointer: \<open>p[i]\<close> is \<open>m i\<close>.
  C++ checks no bounds, so neither does the store below.
\<close>

type_synonym bytes = "nat \<Rightarrow> u8"

text \<open>
  Modelled from the spec: \<open>iff::image_metadata\<close> is declared in \<^verbatim>\<open>iffwrapper.hpp\<close>, which is
  not part of the sources. The spec (section 3) names its fields: width, height and the row
  padding in bytes. The source reads exactly these three fields and loops over them with
  \<open>uint32_t\<close> counters; they are taken as \<open>uint32_t\<close>.
\<close>

record image_metadata =
  width :: u32
  height :: u32
  padding :: u32

subsection \<open>The frame transform (lines 123 to 144)\<close>

text \<open>
  The buffer under transformation, with the list of the stores made so far, in program
  order: each \<open>char_ptr[i] = v\<close> updates the byte and records \<open>(i, v)\<close>. The transform
  never reads the buffer.
\<close>

record framebuf =
  bytes :: bytes
  stores :: "(nat \<times> u8) list"

definition store :: "size_t \<Rightarrow> u8 \<Rightarrow> framebuf \<Rightarrow> framebuf" where
  "store i v fb = \<lparr>bytes = (bytes fb)(unat i := v), stores = stores fb @ [(unat i, v)]\<rparr>"

text \<open>\<open>constexpr size_t bpp = 3\<close>\<close>

definition bpp :: size_t where
  "bpp = 3"

text \<open>\<open>const auto stride = metadata.width * bpp + metadata.padding\<close>, computed in \<open>size_t\<close>.\<close>

definition stride :: "image_metadata \<Rightarrow> size_t" where
  "stride metadata = ucast (width metadata) * bpp + ucast (padding metadata)"

text \<open>
  The three assignments of a loop body (lines 131 to 133 and 140 to 142); the index
  \<open>y * stride + x * bpp + c\<close> is computed in \<open>size_t\<close>, \<open>y\<close> and \<open>x\<close> being widened.
\<close>

definition put_pixel :: "size_t \<Rightarrow> u32 \<Rightarrow> u32 \<Rightarrow> framebuf \<Rightarrow> framebuf" where
  "put_pixel st y x fb =
     store (ucast y * st + ucast x * bpp + 2) 255
       (store (ucast y * st + ucast x * bpp + 1) 0
         (store (ucast y * st + ucast x * bpp + 0) 0 fb))"

text \<open>The stores of one loop body, as a set.\<close>

definition pixel_stores :: "size_t \<Rightarrow> u32 \<Rightarrow> u32 \<Rightarrow> (nat \<times> u8) set" where
  "pixel_stores st y x =
     {(unat (ucast y * st + ucast x * bpp + 0), 0),
      (unat (ucast y * st + ucast x * bpp + 1), 0),
      (unat (ucast y * st + ucast x * bpp + 2), 255)}"

text \<open>\<open>for(uint32_t i = a; i < b; ++i) body(i)\<close>\<close>

function for_u32 :: "u32 \<Rightarrow> u32 \<Rightarrow> (u32 \<Rightarrow> 'a \<Rightarrow> 'a) \<Rightarrow> 'a \<Rightarrow> 'a" where
  "for_u32 i b body s = (if i < b then for_u32 (i + 1) b body (body i s) else s)"
  by pat_completeness auto
termination
proof (relation "measure (\<lambda>(i, b, body, s). unat b - unat i)")
  show "wf (measure (\<lambda>(i :: u32, b :: u32, body :: u32 \<Rightarrow> 'a \<Rightarrow> 'a, s :: 'a). unat b - unat i))"
    by simp
next
  fix i b :: u32 and body :: "u32 \<Rightarrow> 'a \<Rightarrow> 'a" and s :: 'a
  assume "i < b"
  then have "unat (i + 1) = Suc (unat i)" and "unat i < unat b"
    by unat_arith+
  then show "((i + 1, b, body, body i s), (i, b, body, s))
      \<in> measure (\<lambda>(i, b, body, s). unat b - unat i)"
    by simp
qed

declare for_u32.simps [simp del]

text \<open>
  Lines 127 to 144: the vertical bar, then the horizontal bar. The bounds are \<open>uint32_t\<close>
  expressions: \<open>metadata.height / 2 - 100\<close> wraps around when the frame has fewer than 200
  rows.
\<close>

definition draw_crosshair :: "image_metadata \<Rightarrow> framebuf \<Rightarrow> framebuf" where
  "draw_crosshair metadata fb =
     (let st = stride metadata;
          fb1 = for_u32 (height metadata div 2 - 100) (height metadata div 2 + 100)
                  (\<lambda>y. for_u32 (width metadata div 2 - 2) (width metadata div 2 + 2)
                     (\<lambda>x. put_pixel st y x)) fb
      in for_u32 (width metadata div 2 - 100) (width metadata div 2 + 100)
           (\<lambda>x. for_u32 (height metadata div 2 - 2) (height metadata div 2 + 2)
              (\<lambda>y. put_pixel st y x)) fb1)"

text \<open>The transform as the worker applies it to the memory of one buffer.\<close>

definition transform :: "image_metadata \<Rightarrow> bytes \<Rightarrow> bytes" where
  "transform metadata m = bytes (draw_crosshair metadata \<lparr>bytes = m, stores = []\<rparr>)"

subsection \<open>The shared state, the worker and the export callback\<close>

text \<open>A buffer is the pointer \<open>get_import_buffer\<close> returned, an opaque handle here.\<close>

type_synonym buffer = nat

text \<open>
  The calls the worker and the callback make on their collaborators and on the queue, in
  the order they are made.
\<close>

datatype effect =
    Memcpy buffer nat
  | Emplace buffer image_metadata
  | NotifyAll
  | LogError string
  | ReleaseBuffer buffer
  | PushImportBuffer buffer image_metadata

text \<open>
  Where the worker thread stands between two accesses to the shared state. The mutex makes
  every section that holds it atomic, so the worker is observed only where it does not hold
  it:
  \<^item> \<open>AtLock\<close>: about to acquire the mutex (line 114, line 147, or on return from
    \<open>cv.wait\<close>, line 153);
  \<^item> \<open>Processing buffer metadata\<close>: between \<open>lock.unlock()\<close> (line 121) and
    \<open>lock.lock()\<close> (line 147), with the popped entry;
  \<^item> \<open>Waiting\<close>: blocked in \<open>cv.wait(lock)\<close>, the mutex released;
  \<^item> \<open>Returned\<close>: after \<open>return\<close> (line 151).
\<close>

datatype worker_pc = AtLock | Processing buffer image_metadata | Waiting | Returned

record pipeline =
  mem :: "buffer \<Rightarrow> bytes"
  processing_queue :: "(buffer \<times> image_metadata) list"
  stop_processing :: bool
  worker :: worker_pc
  trace :: "effect list"

definition memcpy :: "buffer \<Rightarrow> bytes \<Rightarrow> nat \<Rightarrow> pipeline \<Rightarrow> pipeline" where
  "memcpy buffer data sz s =
     s\<lparr>mem := (mem s)(buffer := (\<lambda>i. if i < sz then data i else mem s buffer i)),
       trace := trace s @ [Memcpy buffer sz]\<rparr>"

definition emplace :: "buffer \<Rightarrow> image_metadata \<Rightarrow> pipeline \<Rightarrow> pipeline" where
  "emplace buffer metadata s =
     s\<lparr>processing_queue := processing_queue s @ [(buffer, metadata)],
       trace := trace s @ [Emplace buffer metadata]\<rparr>"

definition notify_all :: "pipeline \<Rightarrow> pipeline" where
  "notify_all s = s\<lparr>trace := trace s @ [NotifyAll]\<rparr>"

definition log_error :: "string \<Rightarrow> pipeline \<Rightarrow> pipeline" where
  "log_error message s = s\<lparr>trace := trace s @ [LogError message]\<rparr>"

definition release_buffer :: "buffer \<Rightarrow> pipeline \<Rightarrow> pipeline" where
  "release_buffer buffer s = s\<lparr>trace := trace s @ [ReleaseBuffer buffer]\<rparr>"

definition push_import_buffer :: "buffer \<Rightarrow> image_metadata \<Rightarrow> pipeline \<Rightarrow> pipeline" where
  "push_import_buffer buffer metadata s = s\<lparr>trace := trace s @ [PushImportBuffer buffer metadata]\<rparr>"

text \<open>\<open>operator<<\<close> on a \<open>size_t\<close>: the decimal digits.\<close>

function dec :: "nat \<Rightarrow> string" where
  "dec n = (if n < 10 then [''0123456789'' ! n] else dec (n div 10) @ [''0123456789'' ! (n mod 10)])"
  by pat_completeness auto
termination
  by (relation "measure id") auto

declare dec.simps [simp del]

text \<open>The message of lines 176 and 177.\<close>

definition size_message :: "nat \<Rightarrow> nat \<Rightarrow> string" where
  "size_message buffer_size sz =
     ''Got import buffer size less than export buffer size ('' @ dec buffer_size @ '' < '' @ dec sz @ '')''"

text \<open>
  The export callback (lines 159 to 182). \<open>lease\<close> is what \<open>get_import_buffer\<close> returned:
  \<open>None\<close> for \<open>nullptr\<close>, else the buffer and \<open>buffer_size\<close>. \<open>data\<close> is the memory at
  the \<open>data\<close> pointer and \<open>sz\<close> the parameter \<open>size\<close> (a constant of HOL has that name).
\<close>

definition export_callback ::
  "(buffer \<times> nat) option \<Rightarrow> bytes \<Rightarrow> nat \<Rightarrow> image_metadata \<Rightarrow> pipeline \<Rightarrow> pipeline" where
  "export_callback lease data sz metadata s =
     (case lease of
        None \<Rightarrow> s
      | Some (buffer, buffer_size) \<Rightarrow>
          if buffer_size \<ge> sz
          then notify_all (emplace buffer metadata (memcpy buffer data sz s))
          else release_buffer buffer (log_error (size_message buffer_size sz) s))"

text \<open>
  One step of the worker (lines 112 to 155), from one point where it does not hold the mutex
  to the next.
\<close>

definition worker_step :: "pipeline \<Rightarrow> pipeline" where
  "worker_step s =
     (case worker s of
        AtLock \<Rightarrow>
          (case processing_queue s of
             (buffer, metadata) # rest \<Rightarrow>
               s\<lparr>processing_queue := rest, worker := Processing buffer metadata\<rparr>
           | [] \<Rightarrow>
               if stop_processing s then s\<lparr>worker := Returned\<rparr> else s\<lparr>worker := Waiting\<rparr>)
      | Processing buffer metadata \<Rightarrow>
          (push_import_buffer buffer metadata
             (s\<lparr>mem := (mem s)(buffer := transform metadata (mem s buffer))\<rparr>))\<lparr>worker := AtLock\<rparr>
      | Waiting \<Rightarrow> s\<lparr>worker := AtLock\<rparr>
      | Returned \<Rightarrow> s)"

text \<open>Lines 190 to 194: the main thread sets the flag under the mutex and notifies.\<close>

definition stop :: "pipeline \<Rightarrow> pipeline" where
  "stop s = notify_all (s\<lparr>stop_processing := True\<rparr>)"

text \<open>
  What can happen to the shared state: a frame is exported (with the answer of
  \<open>get_import_buffer\<close>), the main thread stops the processing, or the worker takes a step.
\<close>

datatype event =
    ExportFrame "(buffer \<times> nat) option" bytes nat image_metadata
  | Stop
  | WorkerStep

fun step :: "event \<Rightarrow> pipeline \<Rightarrow> pipeline" where
  "step (ExportFrame lease data sz metadata) s = export_callback lease data sz metadata s"
| "step Stop s = stop s"
| "step WorkerStep s = worker_step s"

definition run :: "event list \<Rightarrow> pipeline \<Rightarrow> pipeline" where
  "run evs s = fold step evs s"

text \<open>The state when the worker thread is created (line 156).\<close>

definition init :: "(buffer \<Rightarrow> bytes) \<Rightarrow> pipeline" where
  "init m = \<lparr>mem = m, processing_queue = [], stop_processing = False, worker = AtLock, trace = []\<rparr>"

text \<open>The entries enqueued and the entries pushed to the import chain, read off a trace.\<close>

fun emplaced :: "effect list \<Rightarrow> (buffer \<times> image_metadata) list" where
  "emplaced [] = []"
| "emplaced (Emplace b md # es) = (b, md) # emplaced es"
| "emplaced (_ # es) = emplaced es"

fun pushed :: "effect list \<Rightarrow> (buffer \<times> image_metadata) list" where
  "pushed [] = []"
| "pushed (PushImportBuffer b md # es) = (b, md) # pushed es"
| "pushed (_ # es) = pushed es"

fun in_flight :: "worker_pc \<Rightarrow> (buffer \<times> image_metadata) list" where
  "in_flight (Processing b md) = [(b, md)]"
| "in_flight _ = []"

text \<open>
  A bound on the steps the worker still takes once \<open>stop_processing\<close> is set and nothing
  more is enqueued: two for each queued entry (pop, then transform and push), and the steps
  to come back to the head of the loop and return.
\<close>

definition steps_left :: "pipeline \<Rightarrow> nat" where
  "steps_left s =
     (case worker s of
        AtLock \<Rightarrow> 2 * length (processing_queue s) + 1
      | Processing buffer metadata \<Rightarrow> 2 * length (processing_queue s) + 2
      | Waiting \<Rightarrow> 2 * length (processing_queue s) + 2
      | Returned \<Rightarrow> 0)"

subsection \<open>Sample inputs\<close>

text \<open>Concrete memories and frames on which the theorems below are evaluated.\<close>

definition blank :: bytes where
  "blank = (\<lambda>_. 0)"

definition sevens :: bytes where
  "sevens = (\<lambda>_. 7)"

definition blank_memory :: "buffer \<Rightarrow> bytes" where
  "blank_memory = (\<lambda>_. blank)"

definition small_frame :: image_metadata where
  "small_frame = \<lparr>width = 2, height = 2, padding = 0\<rparr>"

text \<open>
  The frame of the end-to-end scenario: 640 by 480 pixels, no padding, so a stride of
  1920 bytes; and the pixels of its crosshair, by row and column: a vertical bar of 200 rows
  by 4 columns and a horizontal bar of 4 rows by 200 columns, both centred.
\<close>

definition frame_640x480 :: image_metadata where
  "frame_640x480 = \<lparr>width = 640, height = 480, padding = 0\<rparr>"

definition on_crosshair_640x480 :: "nat \<Rightarrow> nat \<Rightarrow> bool" where
  "on_crosshair_640x480 row col \<longleftrightarrow>
     (140 \<le> row \<and> row < 340 \<and> 318 \<le> col \<and> col < 322)
     \<or> (238 \<le> row \<and> row < 242 \<and> 220 \<le> col \<and> col < 420)"

definition two_frames :: "event list" where
  "two_frames = [ExportFrame (Some (0, 16)) sevens 12 small_frame,
     ExportFrame (Some (1, 16)) blank 12 small_frame,
     WorkerStep, WorkerStep, WorkerStep, WorkerStep]"

definition two_frames_then_stop :: "event list" where
  "two_frames_then_stop = [ExportFrame (Some (0, 16)) sevens 12 small_frame,
     ExportFrame (Some (1, 16)) blank 12 small_frame, WorkerStep]"

definition drain :: "event list" where
  "drain = [Stop, WorkerStep, WorkerStep, WorkerStep, WorkerStep, WorkerStep]"

definition import_chain_config :: json where
  "import_chain_config = JObject [(''id'', JString ''import'')]"

definition export_chain_config :: json where
  "export_chain_config = JObject [(''id'', JString ''export'')]"

definition second_import_config :: json where
  "second_import_config = JObject [(''id'', JString ''import''), (''copy'', JBool True)]"

definition sample_config :: json where
  "sample_config = JObject [(''IFF'', JObject []),
     (''chains'', JArray [import_chain_config, export_chain_config, second_import_config])]"

definition camera_only_config :: json where
  "camera_only_config = JObject [(''IFF'', JObject []),
     (''chains'', JArray [JObject [(''id'', JString ''camera'')]])]"

definition export_only_config :: json where
  "export_only_config = JObject [(''IFF'', JObject []), (''chains'', JArray [export_chain_config])]"

definition numeric_id_config :: json where
  "numeric_id_config = JObject [(''IFF'', JObject []),
     (''chains'', JArray [JObject [(''id'', JNumber 7)], import_chain_config, second_import_config])]"

section \<open>Properties\<close>

subsection \<open>The export callback\<close>

text \<open>
  Claim C3, as amended. When \<open>get_import_buffer\<close> returns \<open>nullptr\<close> the callback returns
  at once and leaves everything as it was: nothing is copied, nothing is enqueued (so the
  mutex is not taken and nothing is waited for), nothing is released, and no message is
  logged. The frame is dropped silently.
\<close>

theorem no_buffer_silent_drop:
  "export_callback None data sz metadata s = s"
  by (simp add: export_callback_def)

text \<open>
  Claim C3 as the spec states it has the callback log the exhaustion. It does not: on a
  12-byte frame and no buffer, started from the initial state, the trace stays empty.
\<close>

theorem no_buffer_not_logged:
  "trace (export_callback None sevens 12 small_frame (init blank_memory)) = []"
  by (simp add: export_callback_def init_def)

text \<open>
  Claim C4. When the leased buffer has capacity \<open>buffer_size\<close> smaller than the frame size
  \<open>sz\<close>, no byte is copied (the memory is unchanged), nothing is enqueued, an error is
  logged whose message holds the decimal digits of both \<open>buffer_size\<close> and \<open>sz\<close>, and the
  buffer is given back with \<open>release_buffer\<close>.
\<close>

theorem capacity_mismatch:
  assumes "buffer_size < sz"
  shows "mem (export_callback (Some (buffer, buffer_size)) data sz metadata s) = mem s
    \<and> processing_queue (export_callback (Some (buffer, buffer_size)) data sz metadata s)
        = processing_queue s
    \<and> trace (export_callback (Some (buffer, buffer_size)) data sz metadata s)
        = trace s @ [LogError (size_message buffer_size sz), ReleaseBuffer buffer]
    \<and> size_message buffer_size sz
        = ''Got import buffer size less than export buffer size (''
            @ dec buffer_size @ '' < '' @ dec sz @ '')''
    \<and> sublist (dec buffer_size) (size_message buffer_size sz)
    \<and> sublist (dec sz) (size_message buffer_size sz)"
proof -
  have "sublist (dec buffer_size) (size_message buffer_size sz)"
    unfolding size_message_def sublist_def by blast
  moreover have "sublist (dec sz) (size_message buffer_size sz)"
    unfolding size_message_def sublist_def by (metis append.assoc)
  ultimately show ?thesis
    using assms
    by (simp add: export_callback_def release_buffer_def log_error_def size_message_def)
qed

theorem capacity_mismatch_witness:
  "(4::nat) < 12
   \<and> mem (export_callback (Some (0, 4)) sevens 12 small_frame (init blank_memory)) = blank_memory
   \<and> processing_queue (export_callback (Some (0, 4)) sevens 12 small_frame (init blank_memory)) = []
   \<and> trace (export_callback (Some (0, 4)) sevens 12 small_frame (init blank_memory))
       = [LogError ''Got import buffer size less than export buffer size (4 < 12)'',
          ReleaseBuffer 0]"
  using capacity_mismatch [of 4 12 0 sevens small_frame "init blank_memory"]
  by (simp add: init_def size_message_def dec.simps)

text \<open>
  Claim C8. When the leased buffer has capacity \<open>buffer_size\<close> of at least the frame size
  \<open>sz\<close>, the first \<open>sz\<close> bytes of the buffer become the first \<open>sz\<close> bytes of the data and
  the bytes from \<open>sz\<close> on keep their value, as does every other buffer; the entry is appended
  to the queue; and the calls are made in the order copy, enqueue, notify. The queue is still
  as it was when the copy is complete.
\<close>

theorem copy_then_enqueue_then_notify:
  assumes "sz \<le> buffer_size"
  shows "(\<forall>i. mem (export_callback (Some (buffer, buffer_size)) data sz metadata s) buffer i
            = (if i < sz then data i else mem s buffer i))
    \<and> (\<forall>b. b \<noteq> buffer
          \<longrightarrow> mem (export_callback (Some (buffer, buffer_size)) data sz metadata s) b = mem s b)
    \<and> processing_queue (export_callback (Some (buffer, buffer_size)) data sz metadata s)
        = processing_queue s @ [(buffer, metadata)]
    \<and> trace (export_callback (Some (buffer, buffer_size)) data sz metadata s)
        = trace s @ [Memcpy buffer sz, Emplace buffer metadata, NotifyAll]
    \<and> processing_queue (memcpy buffer data sz s) = processing_queue s"
  using assms
  by (simp add: export_callback_def notify_all_def emplace_def memcpy_def)

theorem copy_then_enqueue_then_notify_witness:
  "(12::nat) \<le> 16
   \<and> mem (export_callback (Some (0, 16)) sevens 12 small_frame (init blank_memory)) 0 11 = 7
   \<and> mem (export_callback (Some (0, 16)) sevens 12 small_frame (init blank_memory)) 0 12 = 0
   \<and> mem (export_callback (Some (0, 16)) sevens 12 small_frame (init blank_memory)) 1 = blank
   \<and> processing_queue (export_callback (Some (0, 16)) sevens 12 small_frame (init blank_memory))
       = [(0, small_frame)]
   \<and> trace (export_callback (Some (0, 16)) sevens 12 small_frame (init blank_memory))
       = [Memcpy 0 12, Emplace 0 small_frame, NotifyAll]"
  using copy_then_enqueue_then_notify [of 12 16 0 sevens small_frame "init blank_memory"]
  by (simp add: init_def sevens_def blank_memory_def blank_def)


subsection \<open>The queue and the worker\<close>

lemma emplaced_append: "emplaced (xs @ ys) = emplaced xs @ emplaced ys"
  by (induction xs rule: emplaced.induct) simp_all

lemma pushed_append: "pushed (xs @ ys) = pushed xs @ pushed ys"
  by (induction xs rule: pushed.induct) simp_all

lemma run_append: "run (xs @ ys) s = run ys (run xs s)"
  by (simp add: run_def)

lemma run_snoc: "run (xs @ [e]) s = step e (run xs s)"
  by (simp add: run_def)

lemmas callback_defs = export_callback_def notify_all_def emplace_def memcpy_def
  release_buffer_def log_error_def

lemma export_callback_emplaced:
  "\<exists>added. emplaced (trace (export_callback lease data sz md s)) = emplaced (trace s) @ added
     \<and> processing_queue (export_callback lease data sz md s) = processing_queue s @ added"
  by (auto simp: callback_defs emplaced_append split: option.splits)

lemma export_callback_keeps:
  "pushed (trace (export_callback lease data sz md s)) = pushed (trace s)"
  "worker (export_callback lease data sz md s) = worker s"
  "stop_processing (export_callback lease data sz md s) = stop_processing s"
  by (auto simp: callback_defs pushed_append split: option.splits)

lemma stop_keeps:
  "pushed (trace (stop s)) = pushed (trace s)"
  "emplaced (trace (stop s)) = emplaced (trace s)"
  "worker (stop s) = worker s"
  "processing_queue (stop s) = processing_queue s"
  "stop_processing (stop s)"
  by (simp_all add: stop_def notify_all_def pushed_append emplaced_append)

lemma worker_step_emplaced: "emplaced (trace (worker_step s)) = emplaced (trace s)"
  by (simp add: worker_step_def push_import_buffer_def emplaced_append
      split: worker_pc.splits list.splits)

lemma worker_step_stop: "stop_processing (worker_step s) = stop_processing s"
  by (simp add: worker_step_def push_import_buffer_def split: worker_pc.splits list.splits)

lemma worker_step_fifo:
  "pushed (trace (worker_step s)) @ in_flight (worker (worker_step s)) @ processing_queue (worker_step s)
     = pushed (trace s) @ in_flight (worker s) @ processing_queue s"
  by (simp add: worker_step_def push_import_buffer_def pushed_append
      split: worker_pc.splits list.splits)

lemma step_fifo:
  assumes "emplaced (trace s) = pushed (trace s) @ in_flight (worker s) @ processing_queue s"
  shows "emplaced (trace (step e s))
     = pushed (trace (step e s)) @ in_flight (worker (step e s)) @ processing_queue (step e s)"
proof (cases e)
  case (ExportFrame lease data sz md)
  then show ?thesis
    using export_callback_emplaced [of lease data sz md s] assms
    by (auto simp: export_callback_keeps)
next
  case Stop
  then show ?thesis using assms by (simp add: stop_keeps)
next
  case WorkerStep
  then show ?thesis using assms by (simp add: worker_step_emplaced worker_step_fifo)
qed

lemma run_fifo:
  assumes "emplaced (trace s) = pushed (trace s) @ in_flight (worker s) @ processing_queue s"
  shows "emplaced (trace (run evs s))
     = pushed (trace (run evs s)) @ in_flight (worker (run evs s)) @ processing_queue (run evs s)"
  using assms
proof (induction evs arbitrary: s)
  case Nil
  then show ?case by (simp add: run_def)
next
  case (Cons e evs)
  have "run (e # evs) s = run evs (step e s)"
    by (simp add: run_def)
  then show ?case
    using Cons.IH [OF step_fifo [OF Cons.prems]] by simp
qed

lemma init_fifo:
  "emplaced (trace (init m)) = pushed (trace (init m)) @ in_flight (worker (init m)) @ processing_queue (init m)"
  by (simp add: init_def)

text \<open>
  Claim C2. After any sequence of events, the entries enqueued so far (in the order of their
  \<open>emplace\<close>) are exactly: the entries pushed to the import chain so far, in the order of
  their push, then the entry the worker is processing, then the queue. So the worker
  pops and processes the entries in the order they were enqueued, none twice and none
  skipped: the i-th entry pushed is the i-th entry enqueued.
\<close>

theorem fifo:
  "emplaced (trace (run evs (init m)))
     = pushed (trace (run evs (init m))) @ in_flight (worker (run evs (init m)))
         @ processing_queue (run evs (init m))
   \<and> (\<forall>i. i < length (pushed (trace (run evs (init m))))
         \<longrightarrow> pushed (trace (run evs (init m))) ! i = emplaced (trace (run evs (init m))) ! i)"
proof -
  have eq: "emplaced (trace (run evs (init m)))
     = pushed (trace (run evs (init m))) @ in_flight (worker (run evs (init m)))
         @ processing_queue (run evs (init m))"
    by (rule run_fifo [OF init_fifo])
  show ?thesis
    by (rule conjI [OF eq]) (simp add: eq nth_append)
qed

lemma two_frames_trace:
  "trace (run two_frames (init blank_memory))
    = [Memcpy 0 12, Emplace 0 small_frame, NotifyAll, Memcpy 1 12, Emplace 1 small_frame, NotifyAll,
       PushImportBuffer 0 small_frame, PushImportBuffer 1 small_frame]"
  by (simp add: two_frames_def run_def init_def callback_defs worker_step_def push_import_buffer_def)

theorem fifo_witness:
  "1 < length (pushed (trace (run two_frames (init blank_memory))))
   \<and> pushed (trace (run two_frames (init blank_memory))) ! 1 = (1, small_frame)
   \<and> emplaced (trace (run two_frames (init blank_memory))) ! 1 = (1, small_frame)
   \<and> pushed (trace (run two_frames (init blank_memory))) ! 0 = (0, small_frame)
   \<and> emplaced (trace (run two_frames (init blank_memory))) ! 0 = (0, small_frame)"
  using fifo [of two_frames blank_memory]
  by (simp add: two_frames_trace)


lemma step_returned_stop:
  assumes "worker s = Returned \<longrightarrow> stop_processing s"
  shows "worker (step e s) = Returned \<longrightarrow> stop_processing (step e s)"
proof (cases e)
  case (ExportFrame lease data sz md)
  then show ?thesis using assms by (simp add: export_callback_keeps)
next
  case Stop
  then show ?thesis by (simp add: stop_keeps)
next
  case WorkerStep
  then show ?thesis using assms
    by (auto simp: worker_step_def push_import_buffer_def split: worker_pc.splits list.splits)
qed

lemma run_returned_stop:
  assumes "worker s = Returned \<longrightarrow> stop_processing s"
  shows "worker (run evs s) = Returned \<longrightarrow> stop_processing (run evs s)"
  using assms
proof (induction evs arbitrary: s)
  case Nil
  then show ?case by (simp add: run_def)
next
  case (Cons e evs)
  have "run (e # evs) s = run evs (step e s)"
    by (simp add: run_def)
  then show ?case
    using Cons.IH [OF step_returned_stop [OF Cons.prems]] by simp
qed

lemma step_emplaced_prefix: "prefix (emplaced (trace s)) (emplaced (trace (step e s)))"
proof (cases e)
  case (ExportFrame lease data sz md)
  then show ?thesis
    using export_callback_emplaced [of lease data sz md s] by auto
next
  case Stop
  then show ?thesis by (simp add: stop_keeps)
next
  case WorkerStep
  then show ?thesis by (simp add: worker_step_emplaced)
qed

lemma step_after_return:
  assumes "worker s = Returned"
  shows "worker (step e s) = Returned" and "pushed (trace (step e s)) = pushed (trace s)"
  using assms
  by (cases e; simp add: export_callback_keeps stop_keeps worker_step_def)+

lemma step_return:
  assumes "worker s \<noteq> Returned" and "worker (step e s) = Returned"
  shows "e = WorkerStep \<and> worker s = AtLock \<and> processing_queue s = [] \<and> stop_processing s
    \<and> trace (step e s) = trace s"
proof (cases e)
  case (ExportFrame lease data sz md)
  then show ?thesis using assms by (simp add: export_callback_keeps)
next
  case Stop
  then show ?thesis using assms by (simp add: stop_keeps)
next
  case WorkerStep
  then show ?thesis using assms
    by (auto simp: worker_step_def push_import_buffer_def
        split: worker_pc.splits list.splits if_splits)
qed

lemma drained_when_returned:
  assumes fifo: "emplaced (trace s) = pushed (trace s) @ in_flight (worker s) @ processing_queue s"
    and live: "worker s \<noteq> Returned"
  shows "worker (run evs s) = Returned
    \<longrightarrow> prefix (emplaced (trace s)) (pushed (trace (run evs s)))"
    and "prefix (emplaced (trace s)) (emplaced (trace (run evs s)))"
proof (induction evs rule: rev_induct)
  case Nil
  { case 1 show ?case using live by (simp add: run_def) }
  { case 2 show ?case by (simp add: run_def) }
next
  case (snoc e evs)
  let ?t = "run evs s"
  have t_fifo: "emplaced (trace ?t) = pushed (trace ?t) @ in_flight (worker ?t) @ processing_queue ?t"
    by (rule run_fifo [OF fifo])
  { case 1
    show ?case
    proof (cases "worker ?t = Returned")
      case True
      then show ?thesis
        using snoc.IH(1) by (simp add: run_snoc step_after_return)
    next
      case False
      show ?thesis
      proof
        assume "worker (run (evs @ [e]) s) = Returned"
        then have ret: "worker (step e ?t) = Returned"
          by (simp add: run_snoc)
        from step_return [OF False ret]
        have idle: "worker ?t = AtLock" "processing_queue ?t = []"
          and tr: "trace (step e ?t) = trace ?t"
          by blast+
        have "pushed (trace (step e ?t)) = pushed (trace ?t)"
          by (simp only: tr)
        also have "\<dots> = emplaced (trace ?t)"
          using t_fifo idle by simp
        finally have "pushed (trace (step e ?t)) = emplaced (trace ?t)" .
        then show "prefix (emplaced (trace s)) (pushed (trace (run (evs @ [e]) s)))"
          using snoc.IH(2) by (simp add: run_snoc)
      qed
    qed }
  { case 2
    show ?case
      using snoc.IH(2) step_emplaced_prefix [of ?t e]
      by (auto simp: run_snoc intro: prefix_order.trans) }
qed

text \<open>
  Claim C1. Take any events \<open>pre\<close> after which the stop flag is not set, and any events
  \<open>post\<close> after which the worker has returned. Then every entry enqueued during \<open>pre\<close> has
  been pushed to the import chain, in order. The worker returns only by a step of its own taken
  at the head of its loop with the queue empty and the flag set; and while the queue is not
  empty its step does not depend on the flag.
\<close>

theorem drain_on_shutdown:
  "(\<not> stop_processing (run pre (init m)) \<and> worker (run (pre @ post) (init m)) = Returned
      \<longrightarrow> prefix (emplaced (trace (run pre (init m)))) (pushed (trace (run (pre @ post) (init m)))))
   \<and> (worker s \<noteq> Returned \<and> worker (step e s) = Returned
      \<longrightarrow> e = WorkerStep \<and> worker s = AtLock \<and> processing_queue s = [] \<and> stop_processing s)
   \<and> (processing_queue s \<noteq> []
      \<longrightarrow> worker_step (s\<lparr>stop_processing := b\<rparr>) = (worker_step s)\<lparr>stop_processing := b\<rparr>)"
proof (intro conjI impI)
  assume a: "\<not> stop_processing (run pre (init m)) \<and> worker (run (pre @ post) (init m)) = Returned"
  let ?s = "run pre (init m)"
  have "worker ?s = Returned \<longrightarrow> stop_processing ?s"
    by (rule run_returned_stop) (simp add: init_def)
  with a have live: "worker ?s \<noteq> Returned"
    by blast
  have "emplaced (trace ?s) = pushed (trace ?s) @ in_flight (worker ?s) @ processing_queue ?s"
    by (rule run_fifo [OF init_fifo])
  from drained_when_returned(1) [OF this live, of post] a
  show "prefix (emplaced (trace ?s)) (pushed (trace (run (pre @ post) (init m))))"
    by (simp add: run_append)
next
  assume "worker s \<noteq> Returned \<and> worker (step e s) = Returned"
  then show "e = WorkerStep" "worker s = AtLock" "processing_queue s = []" "stop_processing s"
    using step_return [of s e] by blast+
next
  assume "processing_queue s \<noteq> []"
  then show "worker_step (s\<lparr>stop_processing := b\<rparr>) = (worker_step s)\<lparr>stop_processing := b\<rparr>"
    by (simp add: worker_step_def push_import_buffer_def split: worker_pc.splits list.splits)
qed

lemma drain_trace:
  "trace (run (two_frames_then_stop @ drain) (init blank_memory))
    = [Memcpy 0 12, Emplace 0 small_frame, NotifyAll, Memcpy 1 12, Emplace 1 small_frame, NotifyAll,
       NotifyAll, PushImportBuffer 0 small_frame, PushImportBuffer 1 small_frame]"
  "worker (run (two_frames_then_stop @ drain) (init blank_memory)) = Returned"
  "stop_processing (run two_frames_then_stop (init blank_memory)) = False"
  "emplaced (trace (run two_frames_then_stop (init blank_memory))) = [(0, small_frame), (1, small_frame)]"
  by (simp_all add: two_frames_then_stop_def drain_def run_def init_def callback_defs worker_step_def
      push_import_buffer_def stop_def)

theorem drain_on_shutdown_witness:
  "\<not> stop_processing (run two_frames_then_stop (init blank_memory))
   \<and> worker (run (two_frames_then_stop @ drain) (init blank_memory)) = Returned
   \<and> emplaced (trace (run two_frames_then_stop (init blank_memory))) = [(0, small_frame), (1, small_frame)]
   \<and> prefix [(0, small_frame), (1, small_frame)]
       (pushed (trace (run (two_frames_then_stop @ drain) (init blank_memory))))"
  using drain_on_shutdown [of two_frames_then_stop blank_memory drain]
  by (simp add: drain_trace)

text \<open>
  Once the flag is set and nothing more is enqueued, the worker does return: \<open>steps_left\<close>
  steps are enough.
\<close>

lemma worker_step_steps_left:
  assumes "stop_processing s" and "worker s \<noteq> Returned"
  shows "steps_left (worker_step s) < steps_left s"
  using assms
  by (auto simp: steps_left_def worker_step_def push_import_buffer_def
      split: worker_pc.splits list.splits)

lemma worker_returns_after_stop:
  assumes "stop_processing s" and "steps_left s \<le> n"
  shows "worker (run (replicate n WorkerStep) s) = Returned"
  using assms
proof (induction n arbitrary: s)
  case 0
  then show ?case
    by (simp add: run_def steps_left_def split: worker_pc.splits)
next
  case (Suc n)
  have unfold: "run (WorkerStep # replicate n WorkerStep) s = run (replicate n WorkerStep) (worker_step s)"
    by (simp add: run_def)
  show ?case
  proof (cases "worker s = Returned")
    case True
    then have "worker_step s = s" and "steps_left s = 0"
      by (simp_all add: worker_step_def steps_left_def)
    then show ?thesis
      using Suc.IH [of s] Suc.prems(1) by (simp add: unfold)
  next
    case False
    then have "steps_left (worker_step s) \<le> n"
      using worker_step_steps_left [OF Suc.prems(1) False] Suc.prems(2) by simp
    then show ?thesis
      using Suc.IH [of "worker_step s"] Suc.prems(1) by (simp add: unfold worker_step_stop)
  qed
qed


subsection \<open>The frame transform\<close>

lemma u32_succ:
  fixes i b :: u32
  assumes "i < b"
  shows "unat (i + 1) = Suc (unat i)"
  using assms by unat_arith

lemma u32_range_split:
  fixes i b j :: u32
  assumes "i < b"
  shows "(i \<le> j \<and> j < b) \<longleftrightarrow> (j = i \<or> (i + 1 \<le> j \<and> j < b))"
  using assms by unat_arith

lemma for_u32_rule:
  assumes "P s" and "\<And>i t. a \<le> i \<Longrightarrow> i < b \<Longrightarrow> P t \<Longrightarrow> P (body i t)"
  shows "P (for_u32 a b body s)"
  using assms
proof (induction a b body s rule: for_u32.induct)
  case (1 i b body s)
  show ?case
  proof (cases "i < b")
    case True
    have "P (body i s)"
      using "1.prems" True by simp
    moreover have "\<And>j t. i + 1 \<le> j \<Longrightarrow> j < b \<Longrightarrow> P t \<Longrightarrow> P (body j t)"
      using "1.prems"(2) u32_range_split [OF True] by blast
    ultimately have "P (for_u32 (i + 1) b body (body i s))"
      using "1.IH" [OF True] by blast
    then show ?thesis
      using True by (simp add: for_u32.simps [of i])
  next
    case False
    then show ?thesis
      using "1.prems"(1) by (simp add: for_u32.simps [of i])
  qed
qed

lemma for_u32_stores:
  assumes "\<And>i t. set (stores (body i t)) = set (stores t) \<union> S i"
  shows "set (stores (for_u32 a b body s)) = set (stores s) \<union> (\<Union>i\<in>{i. a \<le> i \<and> i < b}. S i)"
  using assms
proof (induction a b body s rule: for_u32.induct)
  case (1 i b body s)
  show ?case
  proof (cases "i < b")
    case True
    have "{j. i \<le> j \<and> j < b} = insert i {j. i + 1 \<le> j \<and> j < b}"
      using u32_range_split [OF True] by blast
    then show ?thesis
      using True "1.IH" [OF True "1.prems"]
      by (simp add: for_u32.simps [of i] "1.prems" Un_assoc)
  next
    case False
    then have none: "{j. i \<le> j \<and> j < b} = {}"
      by auto
    show ?thesis
      unfolding none using False by (simp add: for_u32.simps [of i])
  qed
qed


lemma bar_100:
  fixes h y :: u32
  assumes "h div 2 - 100 \<le> y" and "y < h div 2 + 100"
  shows "y < h"
  using assms unsigned_less [of h, where ?'a = nat]
  by (auto simp: unat_arith_simps split: if_splits)

lemma bar_2:
  fixes h y :: u32
  assumes "h div 2 - 2 \<le> y" and "y < h div 2 + 2"
  shows "y < h"
  using assms unsigned_less [of h, where ?'a = nat]
  by (auto simp: unat_arith_simps split: if_splits)


lemma u32_bound: "unat (x :: u32) < 4294967296"
  using unsigned_less [of x, where ?'a = nat] by simp

lemma unat_widen: "unat (ucast (x :: u32) :: size_t) = unat x"
proof -
  have "unat x < 2 ^ 64"
    using u32_bound [of x] by simp
  then show ?thesis
    by (simp add: unsigned_ucast_eq take_bit_nat_eq_self)
qed

lemma stride_nat: "unat (stride md) = unat (width md) * 3 + unat (padding md)"
proof -
  have "unat (width md) * 3 + unat (padding md) < 2 ^ 64"
    using u32_bound [of "width md"] u32_bound [of "padding md"] by simp
  then show ?thesis
    by (simp add: stride_def bpp_def unat_word_ariths unat_widen mod_simps)
qed

lemma pixel_index_nat:
  "unat (ucast (y :: u32) * st + ucast (x :: u32) * bpp + (c :: size_t))
     = (unat y * unat st + unat x * 3 + unat c) mod 2 ^ 64"
  by (simp add: bpp_def unat_word_ariths unat_widen mod_simps)


lemma pixel_in_frame:
  assumes "y < height md" and "x < width md" and "c < bpp"
  shows "unat (ucast y * stride md + ucast x * bpp + c) < unat (height md) * unat (stride md)"
    and "unat (height md) * unat (stride md) \<le> 2 ^ 64
      \<Longrightarrow> unat (ucast y * stride md + ucast x * bpp + c)
        = unat y * unat (stride md) + unat x * unat bpp + unat c"
proof -
  let ?true = "unat y * unat (stride md) + unat x * 3 + unat c"
  have y: "Suc (unat y) \<le> unat (height md)" and x: "unat x < unat (width md)"
    and c: "unat c < 3"
    using assms by (simp_all add: word_less_nat_alt bpp_def)
  have "?true < unat y * unat (stride md) + unat (stride md)"
    using x c by (simp add: stride_nat)
  also have "\<dots> = Suc (unat y) * unat (stride md)"
    by simp
  also have "\<dots> \<le> unat (height md) * unat (stride md)"
    using y by (rule mult_le_mono1)
  finally have true: "?true < unat (height md) * unat (stride md)" .
  have idx: "unat (ucast y * stride md + ucast x * bpp + c) = ?true mod 2 ^ 64"
    by (rule pixel_index_nat)
  have "?true mod 2 ^ 64 \<le> ?true"
    by (rule mod_less_eq_dividend)
  with true idx
  show "unat (ucast y * stride md + ucast x * bpp + c) < unat (height md) * unat (stride md)"
    by linarith
  assume "unat (height md) * unat (stride md) \<le> 2 ^ 64"
  with true have "?true < 2 ^ 64"
    by linarith
  then show "unat (ucast y * stride md + ucast x * bpp + c)
      = unat y * unat (stride md) + unat x * unat bpp + unat c"
    using idx by (simp add: bpp_def)
qed

lemma store_stores: "stores (store i v fb) = stores fb @ [(unat i, v)]"
  by (simp add: store_def)

lemma put_pixel_stores:
  "stores (put_pixel st y x fb) = stores fb @
     [(unat (ucast y * st + ucast x * bpp + 0), 0),
      (unat (ucast y * st + ucast x * bpp + 1), 0),
      (unat (ucast y * st + ucast x * bpp + 2), 255)]"
  by (simp add: put_pixel_def store_stores)

text \<open>
  Claim C5. For every metadata, every store of the transform goes to a byte offset below
  \<open>height * stride\<close>, and the offset is \<open>row * stride + col * bpp + ch\<close> for a row below
  the height, a column below the width and a channel below \<open>bpp\<close>, computed in \<open>size_t\<close>
  as the source does; when \<open>height * stride\<close> fits in a \<open>size_t\<close> the same holds of the
  unbounded sum. The transform reads no byte.
\<close>

theorem crosshair_in_bounds:
  "\<forall>(i, v) \<in> set (stores (draw_crosshair metadata \<lparr>bytes = m, stores = []\<rparr>)).
      i < unat (height metadata) * unat (stride metadata)
    \<and> (\<exists>row col ch. row < height metadata \<and> col < width metadata \<and> ch < bpp
         \<and> i = unat (ucast row * stride metadata + ucast col * bpp + ch)
         \<and> (unat (height metadata) * unat (stride metadata) \<le> 2 ^ 64
            \<longrightarrow> i = unat row * unat (stride metadata) + unat col * unat bpp + unat ch))"
proof -
  define good where "good i \<longleftrightarrow>
      i < unat (height metadata) * unat (stride metadata)
    \<and> (\<exists>row col ch. row < height metadata \<and> col < width metadata \<and> ch < bpp
         \<and> i = unat (ucast row * stride metadata + ucast col * bpp + ch)
         \<and> (unat (height metadata) * unat (stride metadata) \<le> 2 ^ 64
            \<longrightarrow> i = unat row * unat (stride metadata) + unat col * unat bpp + unat ch))" for i
  define P where "P fb \<longleftrightarrow> (\<forall>(i, v) \<in> set (stores fb). good i)" for fb :: framebuf
  have pixel: "good (unat (ucast y * stride metadata + ucast x * bpp + c))"
    if "y < height metadata" and "x < width metadata" and "c < bpp" for y x c
    unfolding good_def using pixel_in_frame [OF that] that by blast
  have put: "P (put_pixel (stride metadata) y x fb)"
    if "y < height metadata" and "x < width metadata" and "P fb" for y x fb
    using that(3) pixel [OF that(1,2), of 0] pixel [OF that(1,2), of 1] pixel [OF that(1,2), of 2]
    by (simp add: P_def put_pixel_stores bpp_def)
  have start: "P \<lparr>bytes = m, stores = []\<rparr>"
    by (simp add: P_def)
  have vertical: "P (for_u32 (height metadata div 2 - 100) (height metadata div 2 + 100)
      (\<lambda>y. for_u32 (width metadata div 2 - 2) (width metadata div 2 + 2)
         (\<lambda>x. put_pixel (stride metadata) y x)) \<lparr>bytes = m, stores = []\<rparr>)"
  proof (rule for_u32_rule [where P = P, OF start])
    fix y t
    assume y: "height metadata div 2 - 100 \<le> y" "y < height metadata div 2 + 100" and t: "P t"
    show "P (for_u32 (width metadata div 2 - 2) (width metadata div 2 + 2)
        (\<lambda>x. put_pixel (stride metadata) y x) t)"
    proof (rule for_u32_rule [where P = P, OF t])
      fix x u
      assume "width metadata div 2 - 2 \<le> x" "x < width metadata div 2 + 2" and "P u"
      then show "P (put_pixel (stride metadata) y x u)"
        using put bar_100 [OF y] bar_2 by blast
    qed
  qed
  have "P (draw_crosshair metadata \<lparr>bytes = m, stores = []\<rparr>)"
    unfolding draw_crosshair_def Let_def
  proof (rule for_u32_rule [where P = P, OF vertical])
    fix x t
    assume x: "width metadata div 2 - 100 \<le> x" "x < width metadata div 2 + 100" and t: "P t"
    show "P (for_u32 (height metadata div 2 - 2) (height metadata div 2 + 2)
        (\<lambda>y. put_pixel (stride metadata) y x) t)"
    proof (rule for_u32_rule [where P = P, OF t])
      fix y u
      assume "height metadata div 2 - 2 \<le> y" "y < height metadata div 2 + 2" and "P u"
      then show "P (put_pixel (stride metadata) y x u)"
        using put bar_100 [OF x] bar_2 by blast
    qed
  qed
  then show ?thesis
    unfolding P_def good_def .
qed


lemma put_pixel_stores_set:
  "set (stores (put_pixel st y x fb)) = set (stores fb) \<union> pixel_stores st y x"
  by (auto simp: put_pixel_stores pixel_stores_def)

lemma draw_crosshair_stores:
  "set (stores (draw_crosshair md fb)) = set (stores fb)
     \<union> (\<Union>y\<in>{y. height md div 2 - 100 \<le> y \<and> y < height md div 2 + 100}.
          \<Union>x\<in>{x. width md div 2 - 2 \<le> x \<and> x < width md div 2 + 2}. pixel_stores (stride md) y x)
     \<union> (\<Union>x\<in>{x. width md div 2 - 100 \<le> x \<and> x < width md div 2 + 100}.
          \<Union>y\<in>{y. height md div 2 - 2 \<le> y \<and> y < height md div 2 + 2}. pixel_stores (stride md) y x)"
  unfolding draw_crosshair_def Let_def
  by (simp add: for_u32_stores [where S = "\<lambda>x. \<Union>y\<in>{y. height md div 2 - 2 \<le> y \<and> y < height md div 2 + 2}. pixel_stores (stride md) y x"]
      for_u32_stores [where S = "\<lambda>y. \<Union>x\<in>{x. width md div 2 - 2 \<le> x \<and> x < width md div 2 + 2}. pixel_stores (stride md) y x"]
      for_u32_stores [where S = "\<lambda>y. pixel_stores (stride md) y x" for x]
      for_u32_stores [where S = "\<lambda>x. pixel_stores (stride md) y x" for y]
      put_pixel_stores_set)


lemma frame_640x480_simps:
  "width frame_640x480 = 640" "height frame_640x480 = 480" "padding frame_640x480 = 0"
  "stride frame_640x480 = 1920"
  by (simp_all add: frame_640x480_def stride_def bpp_def)

lemma frame_index:
  fixes y x :: u32 and c :: size_t
  assumes "y < 480" and "x < 640" and "c < 3"
  shows "unat (ucast y * 1920 + ucast x * bpp + c) = unat y * 1920 + unat x * 3 + unat c"
  using pixel_in_frame(2) [of y frame_640x480 x c] assms
  by (simp add: frame_640x480_simps bpp_def)

lemma frame_pixel_stores:
  fixes y x :: u32
  assumes "y < 480" and "x < 640"
  shows "pixel_stores 1920 y x =
    {(unat y * 1920 + unat x * 3, 0), (unat y * 1920 + unat x * 3 + 1, 0),
     (unat y * 1920 + unat x * 3 + 2, 255)}"
  using frame_index [OF assms, of 0] frame_index [OF assms, of 1] frame_index [OF assms, of 2]
  by (simp add: pixel_stores_def)

lemma nat_pixel_member:
  fixes j Y X :: nat
  assumes "X < 640"
  shows "(j = Y * 1920 + X * 3 \<or> j = Y * 1920 + X * 3 + 1 \<or> j = Y * 1920 + X * 3 + 2)
    \<longleftrightarrow> (j div 1920 = Y \<and> j mod 1920 div 3 = X)"
proof
  assume d: "j = Y * 1920 + X * 3 \<or> j = Y * 1920 + X * 3 + 1 \<or> j = Y * 1920 + X * 3 + 2"
  have key: "(Y * 1920 + (X * 3 + c)) div 1920 = Y \<and> (Y * 1920 + (X * 3 + c)) mod 1920 div 3 = X"
    if "c < 3" for c
  proof -
    have "X * 3 + c < 1920"
      using assms that by linarith
    then show ?thesis
      using that by simp
  qed
  from d key [of 0] key [of 1] key [of 2]
  show "j div 1920 = Y \<and> j mod 1920 div 3 = X"
    by (auto simp: add.assoc)
next
  assume a: "j div 1920 = Y \<and> j mod 1920 div 3 = X"
  define r where "r = j mod 1920"
  have "j = Y * 1920 + r"
    using a div_mult_mod_eq [of j 1920] by (simp add: r_def)
  moreover have "r = X * 3 + r mod 3"
    using a div_mult_mod_eq [of r 3] by (simp add: r_def)
  moreover have "r mod 3 < 3"
    by simp
  ultimately show "j = Y * 1920 + X * 3 \<or> j = Y * 1920 + X * 3 + 1 \<or> j = Y * 1920 + X * 3 + 2"
    by linarith
qed

lemma nat_pixel_channel:
  fixes Y X :: nat
  shows "(Y * 1920 + X * 3) mod 3 = 0" "(Y * 1920 + X * 3 + 1) mod 3 = 1"
    "(Y * 1920 + X * 3 + 2) mod 3 = 2"
proof -
  have "Y * 1920 + X * 3 = 3 * (Y * 640 + X)"
    by simp
  then show "(Y * 1920 + X * 3) mod 3 = 0" "(Y * 1920 + X * 3 + 1) mod 3 = 1"
    "(Y * 1920 + X * 3 + 2) mod 3 = 2"
    by (simp_all only: mod_mult_self4 mod_mult_self2_is_0) simp_all
qed

lemma frame_pixel_member:
  fixes y x :: u32
  assumes "y < 480" and "x < 640"
  shows "j \<in> fst ` pixel_stores 1920 y x \<longleftrightarrow> j div 1920 = unat y \<and> j mod 1920 div 3 = unat x"
proof -
  have "unat x < 640"
    using assms(2) by (simp add: word_less_nat_alt)
  from nat_pixel_member [OF this, of j "unat y"] show ?thesis
    unfolding frame_pixel_stores [OF assms] by auto
qed

lemma frame_pixel_colour:
  fixes y x :: u32
  assumes "y < 480" and "x < 640" and "(j, v) \<in> pixel_stores 1920 y x"
  shows "v = (if j mod 3 = 2 then 255 else 0)"
  using assms(3) nat_pixel_channel [of "unat y" "unat x"]
  unfolding frame_pixel_stores [OF assms(1,2)] by auto


lemma u32_between:
  fixes a b :: u32
  shows "(\<exists>y. a \<le> y \<and> y < b \<and> unat y = n) \<longleftrightarrow> unat a \<le> n \<and> n < unat b"
proof
  assume "\<exists>y. a \<le> y \<and> y < b \<and> unat y = n"
  then show "unat a \<le> n \<and> n < unat b"
    by (auto simp: word_le_nat_alt word_less_nat_alt)
next
  assume n: "unat a \<le> n \<and> n < unat b"
  then have "unat (of_nat n :: u32) = n"
    by (simp add: le_unat_uoi [of n b])
  with n have "a \<le> of_nat n \<and> of_nat n < b \<and> unat (of_nat n :: u32) = n"
    by (simp add: word_le_nat_alt word_less_nat_alt)
  then show "\<exists>y. a \<le> y \<and> y < b \<and> unat y = n"
    by blast
qed

lemma bar_member:
  fixes a b c d :: u32
  assumes "b \<le> 480" and "d \<le> 640"
  shows "j \<in> fst ` (\<Union>y\<in>{y. a \<le> y \<and> y < b}. \<Union>x\<in>{x. c \<le> x \<and> x < d}. pixel_stores 1920 y x)
    \<longleftrightarrow> (unat a \<le> j div 1920 \<and> j div 1920 < unat b)
        \<and> (unat c \<le> j mod 1920 div 3 \<and> j mod 1920 div 3 < unat d)"
proof
  assume "j \<in> fst ` (\<Union>y\<in>{y. a \<le> y \<and> y < b}. \<Union>x\<in>{x. c \<le> x \<and> x < d}. pixel_stores 1920 y x)"
  then obtain y x where y: "a \<le> y" "y < b" and x: "c \<le> x" "x < d"
    and j: "j \<in> fst ` pixel_stores 1920 y x"
    by auto
  have "y < 480" and "x < 640"
    using y(2) x(2) assms by simp_all
  then have "j div 1920 = unat y" and "j mod 1920 div 3 = unat x"
    using j frame_pixel_member [of y x j] by simp_all
  then show "(unat a \<le> j div 1920 \<and> j div 1920 < unat b)
        \<and> (unat c \<le> j mod 1920 div 3 \<and> j mod 1920 div 3 < unat d)"
    using y x by (simp add: word_le_nat_alt word_less_nat_alt)
next
  assume r: "(unat a \<le> j div 1920 \<and> j div 1920 < unat b)
        \<and> (unat c \<le> j mod 1920 div 3 \<and> j mod 1920 div 3 < unat d)"
  obtain y where y: "a \<le> y" "y < b" "unat y = j div 1920"
    using r u32_between [of a b "j div 1920"] by blast
  obtain x where x: "c \<le> x" "x < d" "unat x = j mod 1920 div 3"
    using r u32_between [of c d "j mod 1920 div 3"] by blast
  have "y < 480" and "x < 640"
    using y(2) x(2) assms by simp_all
  then have "j \<in> fst ` pixel_stores 1920 y x"
    using frame_pixel_member [of y x j] y(3) x(3) by simp
  then show "j \<in> fst ` (\<Union>y\<in>{y. a \<le> y \<and> y < b}. \<Union>x\<in>{x. c \<le> x \<and> x < d}. pixel_stores 1920 y x)"
    using y(1,2) x(1,2) by blast
qed

lemma frame_put_pixel:
  fixes y x :: u32
  assumes "y < 480" and "x < 640"
  shows "bytes (put_pixel 1920 y x fb) =
    (bytes fb)(unat y * 1920 + unat x * 3 := 0, unat y * 1920 + unat x * 3 + 1 := 0,
      unat y * 1920 + unat x * 3 + 2 := 255)"
  using frame_index [OF assms, of 0] frame_index [OF assms, of 1] frame_index [OF assms, of 2]
  by (simp add: put_pixel_def store_def)

lemma frame_put_pixel_painted:
  fixes y x :: u32
  assumes "y < 480" and "x < 640"
    and "\<forall>j. bytes fb j
      = (if j \<in> fst ` set (stores fb) then (if j mod 3 = 2 then 255 else 0) else m j)"
  shows "\<forall>j. bytes (put_pixel 1920 y x fb) j
      = (if j \<in> fst ` set (stores (put_pixel 1920 y x fb))
         then (if j mod 3 = 2 then 255 else 0) else m j)"
proof
  fix j
  have here: "j \<in> fst ` pixel_stores 1920 y x \<longleftrightarrow>
      j = unat y * 1920 + unat x * 3 \<or> j = unat y * 1920 + unat x * 3 + 1
      \<or> j = unat y * 1920 + unat x * 3 + 2"
    unfolding frame_pixel_stores [OF assms(1,2)] by auto
  show "bytes (put_pixel 1920 y x fb) j
      = (if j \<in> fst ` set (stores (put_pixel 1920 y x fb))
         then (if j mod 3 = 2 then 255 else 0) else m j)"
    using assms(3) nat_pixel_channel [of "unat y" "unat x"]
    by (auto simp: frame_put_pixel [OF assms(1,2)] put_pixel_stores_set image_Un here)
qed


lemma crosshair_640x480_stores:
  "j \<in> fst ` set (stores (draw_crosshair frame_640x480 \<lparr>bytes = m, stores = []\<rparr>))
    \<longleftrightarrow> on_crosshair_640x480 (j div 1920) (j mod 1920 div 3)"
proof -
  have "set (stores (draw_crosshair frame_640x480 \<lparr>bytes = m, stores = []\<rparr>))
    = (\<Union>y\<in>{y. 140 \<le> y \<and> y < 340}. \<Union>x\<in>{x. 318 \<le> x \<and> x < 322}. pixel_stores 1920 y x)
      \<union> (\<Union>y\<in>{y. 238 \<le> y \<and> y < 242}. \<Union>x\<in>{x. 220 \<le> x \<and> x < 420}. pixel_stores 1920 y x)"
    by (simp add: draw_crosshair_stores frame_640x480_simps)
      (rule arg_cong [where f = "\<lambda>X. _ \<union> X"], blast)
  then show ?thesis
    by (simp add: image_Un bar_member on_crosshair_640x480_def)
qed

lemma crosshair_640x480_painted:
  "\<forall>j. bytes (draw_crosshair frame_640x480 \<lparr>bytes = m, stores = []\<rparr>) j
      = (if j \<in> fst ` set (stores (draw_crosshair frame_640x480 \<lparr>bytes = m, stores = []\<rparr>))
         then (if j mod 3 = 2 then 255 else 0) else m j)"
proof -
  define P where "P fb \<longleftrightarrow> (\<forall>j. bytes fb j
      = (if j \<in> fst ` set (stores fb) then (if j mod 3 = 2 then 255 else 0) else m j))"
    for fb :: framebuf
  have put: "P (put_pixel 1920 y x fb)" if "y < 480" and "x < 640" and "P fb" for y x fb
    using frame_put_pixel_painted [OF that(1,2)] that(3) unfolding P_def by blast
  have start: "P \<lparr>bytes = m, stores = []\<rparr>"
    by (simp add: P_def)
  have vertical: "P (for_u32 140 340 (\<lambda>y. for_u32 318 322 (\<lambda>x. put_pixel 1920 y x))
      \<lparr>bytes = m, stores = []\<rparr>)"
  proof (rule for_u32_rule [where P = P, OF start])
    fix y :: u32 and t
    assume "140 \<le> y" and y: "y < 340" and t: "P t"
    show "P (for_u32 318 322 (\<lambda>x. put_pixel 1920 y x) t)"
    proof (rule for_u32_rule [where P = P, OF t])
      fix x :: u32 and u
      assume "318 \<le> x" and x: "x < 322" and u: "P u"
      have "y < 480" and "x < 640"
        using y x by (simp_all add: word_less_nat_alt)
      then show "P (put_pixel 1920 y x u)"
        using u by (rule put)
    qed
  qed
  have "P (for_u32 220 420 (\<lambda>x. for_u32 238 242 (\<lambda>y. put_pixel 1920 y x))
      (for_u32 140 340 (\<lambda>y. for_u32 318 322 (\<lambda>x. put_pixel 1920 y x))
        \<lparr>bytes = m, stores = []\<rparr>))"
  proof (rule for_u32_rule [where P = P, OF vertical])
    fix x :: u32 and t
    assume "220 \<le> x" and x: "x < 420" and t: "P t"
    show "P (for_u32 238 242 (\<lambda>y. put_pixel 1920 y x) t)"
    proof (rule for_u32_rule [where P = P, OF t])
      fix y :: u32 and u
      assume "238 \<le> y" and y: "y < 242" and u: "P u"
      have "y < 480" and "x < 640"
        using y x by (simp_all add: word_less_nat_alt)
      then show "P (put_pixel 1920 y x u)"
        using u by (rule put)
    qed
  qed
  then have "P (draw_crosshair frame_640x480 \<lparr>bytes = m, stores = []\<rparr>)"
    by (simp add: draw_crosshair_def frame_640x480_simps)
  then show ?thesis
    unfolding P_def .
qed

lemma transform_640x480:
  "transform frame_640x480 m j =
     (if on_crosshair_640x480 (j div 1920) (j mod 1920 div 3)
      then (if j mod 3 = 2 then 255 else 0) else m j)"
  using crosshair_640x480_painted [of m] crosshair_640x480_stores [of j m]
  by (simp add: transform_def)


text \<open>The crosshair of the 640 by 480 frame is not empty, and C5 holds of its first store.\<close>

theorem crosshair_in_bounds_witness:
  "269754 \<in> fst ` set (stores (draw_crosshair frame_640x480 \<lparr>bytes = blank, stores = []\<rparr>))
   \<and> (269754 :: nat) < unat (height frame_640x480) * unat (stride frame_640x480)"
proof -
  have touched: "269754 \<in> fst ` set (stores (draw_crosshair frame_640x480 \<lparr>bytes = blank, stores = []\<rparr>))"
    by (simp add: crosshair_640x480_stores on_crosshair_640x480_def)
  then obtain v where "(269754, v) \<in> set (stores (draw_crosshair frame_640x480 \<lparr>bytes = blank, stores = []\<rparr>))"
    by auto
  with crosshair_in_bounds [of frame_640x480 blank]
  have "(269754 :: nat) < unat (height frame_640x480) * unat (stride frame_640x480)"
    by blast
  with touched show ?thesis
    by (rule conjI)
qed

lemmas worker_defs = worker_step_def push_import_buffer_def

lemma deliver_one_frame:
  assumes "sz \<le> buffer_size"
  shows "run [ExportFrame (Some (buffer, buffer_size)) data sz md, WorkerStep, WorkerStep] (init m)
    = \<lparr>mem = m(buffer := transform md (\<lambda>i. if i < sz then data i else m buffer i)),
       processing_queue = [], stop_processing = False, worker = AtLock,
       trace = [Memcpy buffer sz, Emplace buffer md, NotifyAll, PushImportBuffer buffer md]\<rparr>"
  using assms by (simp add: run_def init_def callback_defs worker_defs cong: if_cong)

lemma frame_offset:
  fixes row col ch :: nat
  assumes "col < 640" and "ch < 3"
  shows "(row * 1920 + col * 3 + ch) div 1920 = row"
    and "(row * 1920 + col * 3 + ch) mod 1920 div 3 = col"
    and "(row * 1920 + col * 3 + ch) mod 3 = ch"
proof -
  have "ch = 0 \<or> ch = 1 \<or> ch = 2"
    using assms(2) by linarith
  then show "(row * 1920 + col * 3 + ch) div 1920 = row"
    and "(row * 1920 + col * 3 + ch) mod 1920 div 3 = col"
    using nat_pixel_member [OF assms(1), of "row * 1920 + col * 3 + ch" row] by auto
  show "(row * 1920 + col * 3 + ch) mod 3 = ch"
    using \<open>ch = 0 \<or> ch = 1 \<or> ch = 2\<close> nat_pixel_channel [of row col] by auto
qed

text \<open>
  Claim C6, as amended. A 640 by 480 frame of 921600 bytes with stride 1920 is delivered
  through the export callback into a leased buffer of at least that capacity, and the worker
  pops and processes it. The buffer pushed to the import chain then holds, on the crosshair
  (rows 140 to 339 of columns 318 to 321, and rows 238 to 241 of columns 220 to 419), the
  bytes 0, 0, 255 in the channels 0, 1, 2 of each pixel (red, green, blue), and everywhere
  else the byte of the delivered frame; beyond the frame the buffer is untouched.
\<close>

theorem crosshair_640x480_forwarded:
  assumes "921600 \<le> buffer_size"
  shows "trace (run [ExportFrame (Some (buffer, buffer_size)) data 921600 frame_640x480,
              WorkerStep, WorkerStep] (init m))
      = [Memcpy buffer 921600, Emplace buffer frame_640x480, NotifyAll,
         PushImportBuffer buffer frame_640x480]
    \<and> (\<forall>j. mem (run [ExportFrame (Some (buffer, buffer_size)) data 921600 frame_640x480,
              WorkerStep, WorkerStep] (init m)) buffer j
          = (if on_crosshair_640x480 (j div 1920) (j mod 1920 div 3)
             then (if j mod 3 = 2 then 255 else 0)
             else if j < 921600 then data j else m buffer j))
    \<and> (\<forall>row col ch. row < 480 \<and> col < 640 \<and> ch < 3 \<longrightarrow>
          mem (run [ExportFrame (Some (buffer, buffer_size)) data 921600 frame_640x480,
              WorkerStep, WorkerStep] (init m)) buffer (row * 1920 + col * 3 + ch)
          = (if on_crosshair_640x480 row col then (if ch = 2 then 255 else 0)
             else data (row * 1920 + col * 3 + ch)))"
proof (intro conjI allI impI)
  show "trace (run [ExportFrame (Some (buffer, buffer_size)) data 921600 frame_640x480,
              WorkerStep, WorkerStep] (init m))
      = [Memcpy buffer 921600, Emplace buffer frame_640x480, NotifyAll,
         PushImportBuffer buffer frame_640x480]"
    by (simp add: deliver_one_frame [OF assms])
next
  fix j
  show "mem (run [ExportFrame (Some (buffer, buffer_size)) data 921600 frame_640x480,
              WorkerStep, WorkerStep] (init m)) buffer j
          = (if on_crosshair_640x480 (j div 1920) (j mod 1920 div 3)
             then (if j mod 3 = 2 then 255 else 0)
             else if j < 921600 then data j else m buffer j)"
    by (simp add: deliver_one_frame [OF assms] transform_640x480)
next
  fix row col ch :: nat
  assume a: "row < 480 \<and> col < 640 \<and> ch < 3"
  then have "row * 1920 + col * 3 + ch < 921600"
    by linarith
  then show "mem (run [ExportFrame (Some (buffer, buffer_size)) data 921600 frame_640x480,
              WorkerStep, WorkerStep] (init m)) buffer (row * 1920 + col * 3 + ch)
          = (if on_crosshair_640x480 row col then (if ch = 2 then 255 else 0)
             else data (row * 1920 + col * 3 + ch))"
    using a by (simp add: deliver_one_frame [OF assms] transform_640x480 frame_offset)
qed

theorem crosshair_640x480_forwarded_witness:
  "(921600 :: nat) \<le> 921600
   \<and> trace (run [ExportFrame (Some (0, 921600)) sevens 921600 frame_640x480,
              WorkerStep, WorkerStep] (init blank_memory))
      = [Memcpy 0 921600, Emplace 0 frame_640x480, NotifyAll, PushImportBuffer 0 frame_640x480]
   \<and> mem (run [ExportFrame (Some (0, 921600)) sevens 921600 frame_640x480,
              WorkerStep, WorkerStep] (init blank_memory)) 0 (240 * 1920 + 320 * 3 + 2) = 255
   \<and> mem (run [ExportFrame (Some (0, 921600)) sevens 921600 frame_640x480,
              WorkerStep, WorkerStep] (init blank_memory)) 0 (240 * 1920 + 320 * 3 + 1) = 0
   \<and> mem (run [ExportFrame (Some (0, 921600)) sevens 921600 frame_640x480,
              WorkerStep, WorkerStep] (init blank_memory)) 0 (10 * 1920 + 10 * 3 + 2) = 7"
  using crosshair_640x480_forwarded [of 921600 0 sevens blank_memory]
  by (simp add: on_crosshair_640x480_def sevens_def)

text \<open>
  Claim C6 as the spec states it has the whole central 200 by 200 region painted. The pixel
  at row 140 and column 220 is a corner of that region and off the crosshair: delivered with
  all bytes 7, its blue byte is still 7 in the pushed buffer.
\<close>

theorem central_region_not_filled:
  "mem (run [ExportFrame (Some (0, 921600)) sevens 921600 frame_640x480,
              WorkerStep, WorkerStep] (init blank_memory)) 0 (140 * 1920 + 220 * 3 + 2) = 7"
  by (simp add: deliver_one_frame transform_640x480 on_crosshair_640x480_def sevens_def)


subsection \<open>Configuration and chains\<close>

lemma construct_chains_log:
  assumes "map chain_id cfgs = map Inr ids"
  shows "construct_chains cfgs n (registry, acts)
    = Inr (map_of (keyed ids n cfgs) ++ registry,
           acts @ construction_log (dom registry) (keyed ids n cfgs))"
  using assms
proof (induction cfgs arbitrary: ids n registry acts)
  case Nil
  then have "ids = []"
    by simp
  then show ?case
    by simp
next
  case (Cons cfg cfgs)
  then obtain key keys where ids: "ids = key # keys" and key: "chain_id cfg = Inr key"
    and keys: "map chain_id cfgs = map Inr keys"
    by (cases ids) auto
  show ?case
  proof (cases "registry key")
    case None
    have "construct_chains (cfg # cfgs) n (registry, acts)
        = construct_chains cfgs (Suc n) (registry(key \<mapsto> (n, cfg)), acts @ [ConstructChain (n, cfg)])"
      by (simp add: key None Let_def)
    also have "\<dots> = Inr (map_of (keyed keys (Suc n) cfgs) ++ registry(key \<mapsto> (n, cfg)),
        (acts @ [ConstructChain (n, cfg)])
          @ construction_log (dom (registry(key \<mapsto> (n, cfg)))) (keyed keys (Suc n) cfgs))"
      by (rule Cons.IH [OF keys])
    also have "map_of (keyed keys (Suc n) cfgs) ++ registry(key \<mapsto> (n, cfg))
        = map_of (keyed ids n (cfg # cfgs)) ++ registry"
      using None by (auto simp: ids map_add_def fun_eq_iff split: option.splits)
    also have "(acts @ [ConstructChain (n, cfg)])
          @ construction_log (dom (registry(key \<mapsto> (n, cfg)))) (keyed keys (Suc n) cfgs)
        = acts @ construction_log (dom registry) (keyed ids n (cfg # cfgs))"
      using None by (auto simp: ids)
    finally show ?thesis .
  next
    case (Some earlier)
    have "construct_chains (cfg # cfgs) n (registry, acts)
        = construct_chains cfgs (Suc n)
            (registry, (acts @ [ConstructChain (n, cfg)]) @ [DestroyChain (n, cfg)])"
      by (simp add: key Some Let_def)
    also have "\<dots> = Inr (map_of (keyed keys (Suc n) cfgs) ++ registry,
        ((acts @ [ConstructChain (n, cfg)]) @ [DestroyChain (n, cfg)])
          @ construction_log (dom registry) (keyed keys (Suc n) cfgs))"
      by (rule Cons.IH [OF keys])
    also have "map_of (keyed keys (Suc n) cfgs) ++ registry
        = map_of (keyed ids n (cfg # cfgs)) ++ registry"
      using Some by (auto simp: ids map_add_def fun_eq_iff split: option.splits)
    also have "((acts @ [ConstructChain (n, cfg)]) @ [DestroyChain (n, cfg)])
          @ construction_log (dom registry) (keyed keys (Suc n) cfgs)
        = acts @ construction_log (dom registry) (keyed ids n (cfg # cfgs))"
      using Some by (auto simp: ids insert_absorb)
    finally show ?thesis .
  qed
qed


lemma keyed_length: "length ids = length cfgs \<Longrightarrow> length (keyed ids n cfgs) = length cfgs"
  by (induction ids n cfgs rule: keyed.induct) simp_all

lemma keyed_keys: "length ids = length cfgs \<Longrightarrow> map fst (keyed ids n cfgs) = ids"
  by (induction ids n cfgs rule: keyed.induct) simp_all

lemma keyed_nth:
  "length ids = length cfgs \<Longrightarrow> j < length cfgs
    \<Longrightarrow> keyed ids n cfgs ! j = (ids ! j, (n + j, cfgs ! j))"
proof (induction ids n cfgs arbitrary: j rule: keyed.induct)
  case (1 key ids n cfg cfgs)
  then show ?case
    by (cases j) simp_all
qed simp_all

lemma map_of_first:
  "i < length ps \<Longrightarrow> (\<forall>m<i. fst (ps ! m) \<noteq> fst (ps ! i))
    \<Longrightarrow> map_of ps (fst (ps ! i)) = Some (snd (ps ! i))"
proof (induction ps arbitrary: i)
  case Nil
  then show ?case by simp
next
  case (Cons p ps)
  show ?case
  proof (cases i)
    case 0
    then show ?thesis by (cases p) simp
  next
    case (Suc i')
    have "fst p \<noteq> fst (ps ! i')"
      using Cons.prems(2) Suc by (metis nth_Cons_0 nth_Cons_Suc zero_less_Suc)
    moreover have "\<forall>m<i'. fst (ps ! m) \<noteq> fst (ps ! i')"
      using Cons.prems(2) Suc by (metis Suc_less_eq nth_Cons_Suc)
    ultimately show ?thesis
      using Cons.IH [of i'] Cons.prems(1) Suc by (cases p) auto
  qed
qed

lemma map_of_is_first:
  "map_of ps k = Some v \<Longrightarrow> \<exists>i<length ps. ps ! i = (k, v) \<and> (\<forall>m<i. fst (ps ! m) \<noteq> k)"
proof (induction ps)
  case Nil
  then show ?case by simp
next
  case (Cons p ps)
  show ?case
  proof (cases "fst p = k")
    case True
    then have "(p # ps) ! 0 = (k, v)"
      using Cons.prems by (cases p) simp
    then show ?thesis
      by (intro exI [of _ 0]) simp
  next
    case False
    then have "map_of ps k = Some v"
      using Cons.prems by (cases p) (simp split: if_splits)
    then obtain i where i: "i < length ps" "ps ! i = (k, v)" "\<forall>m<i. fst (ps ! m) \<noteq> k"
      using Cons.IH by blast
    have "\<forall>m<Suc i. fst ((p # ps) ! m) \<noteq> k"
      using False i(3) by (simp add: nth_Cons split: nat.splits)
    then show ?thesis
      using i(1,2) by (intro exI [of _ "Suc i"]) simp
  qed
qed

lemma log_constructs:
  "j < length ps \<Longrightarrow> ConstructChain (snd (ps ! j)) \<in> set (construction_log seen ps)"
proof (induction ps arbitrary: j seen)
  case Nil
  then show ?case by simp
next
  case (Cons p ps)
  then show ?case
    by (cases p; cases j) auto
qed

lemma log_releases:
  "j < length ps \<Longrightarrow> fst (ps ! j) \<in> seen \<union> fst ` set (take j ps)
    \<Longrightarrow> \<exists>before after. construction_log seen ps
          = before @ [ConstructChain (snd (ps ! j)), DestroyChain (snd (ps ! j))] @ after"
proof (induction ps arbitrary: j seen)
  case Nil
  then show ?case by simp
next
  case (Cons p ps)
  obtain key chain where p: "p = (key, chain)"
    by (cases p)
  show ?case
  proof (cases j)
    case 0
    then have "construction_log seen (p # ps)
        = [] @ [ConstructChain (snd ((p # ps) ! j)), DestroyChain (snd ((p # ps) ! j))]
            @ construction_log (insert key seen) ps"
      using Cons.prems(2) by (simp add: p)
    then show ?thesis
      by blast
  next
    case (Suc j')
    have "fst (ps ! j') \<in> insert key seen \<union> fst ` set (take j' ps)"
      using Cons.prems(2) by (auto simp: Suc p)
    then obtain before after where "construction_log (insert key seen) ps
        = before @ [ConstructChain (snd (ps ! j')), DestroyChain (snd (ps ! j'))] @ after"
      using Cons.IH [of j' "insert key seen"] Cons.prems(1) Suc by auto
    then have "construction_log seen (p # ps)
        = ((if key \<in> seen then [ConstructChain chain, DestroyChain chain] else [ConstructChain chain])
            @ before) @ [ConstructChain (snd ((p # ps) ! j)), DestroyChain (snd ((p # ps) ! j))] @ after"
      by (simp add: p Suc)
    then show ?thesis
      by blast
  qed
qed


lemma construct_chains_from_empty:
  assumes "map chain_id cfgs = map Inr ids"
  shows "construct_chains cfgs 0 (Map.empty, acts)
    = Inr (map_of (keyed ids 0 cfgs), acts @ construction_log {} (keyed ids 0 cfgs))"
  using construct_chains_log [OF assms, of 0 Map.empty acts] by simp

text \<open>
  Claim C10, as amended. When every chain definition carries a string id, the loop
  constructs a chain for every definition; the registry maps an id to the chain of the first
  definition that has it; and for a definition whose id an earlier definition has, the chain
  is never registered and is destroyed right after its construction.
\<close>

theorem first_definition_wins:
  assumes "map chain_id cfgs = map Inr ids"
  shows "construct_chains cfgs 0 (Map.empty, acts)
      = Inr (map_of (keyed ids 0 cfgs), acts @ construction_log {} (keyed ids 0 cfgs))
    \<and> (\<forall>j<length cfgs. ConstructChain (j, cfgs ! j) \<in> set (construction_log {} (keyed ids 0 cfgs)))
    \<and> (\<forall>i<length cfgs. (\<forall>k<i. ids ! k \<noteq> ids ! i)
          \<longrightarrow> map_of (keyed ids 0 cfgs) (ids ! i) = Some (i, cfgs ! i))
    \<and> (\<forall>i j. i < j \<and> j < length cfgs \<and> ids ! i = ids ! j \<longrightarrow>
          map_of (keyed ids 0 cfgs) (ids ! j) \<noteq> Some (j, cfgs ! j)
        \<and> (\<exists>before after. construction_log {} (keyed ids 0 cfgs)
              = before @ [ConstructChain (j, cfgs ! j), DestroyChain (j, cfgs ! j)] @ after))"
proof -
  let ?ps = "keyed ids 0 cfgs"
  have len: "length ids = length cfgs"
    using assms by (rule map_eq_imp_length_eq [symmetric])
  have nth: "?ps ! j = (ids ! j, (j, cfgs ! j))" if "j < length cfgs" for j
    using keyed_nth [OF len that, of 0] by simp
  have size: "length ?ps = length cfgs"
    by (rule keyed_length [OF len])
  have constructed: "ConstructChain (j, cfgs ! j) \<in> set (construction_log {} ?ps)"
    if "j < length cfgs" for j
    using log_constructs [of j ?ps "{}"] that by (simp add: size nth)
  have first: "map_of ?ps (ids ! i) = Some (i, cfgs ! i)"
    if "i < length cfgs" and "\<forall>k<i. ids ! k \<noteq> ids ! i" for i
    using map_of_first [of i ?ps] that by (simp add: size nth)
  have later: "map_of ?ps (ids ! j) \<noteq> Some (j, cfgs ! j)"
    if "i < j" and "j < length cfgs" and "ids ! i = ids ! j" for i j
  proof
    assume "map_of ?ps (ids ! j) = Some (j, cfgs ! j)"
    from map_of_is_first [OF this]
    obtain k where k: "k < length ?ps" "?ps ! k = (ids ! j, (j, cfgs ! j))"
      "\<forall>m<k. fst (?ps ! m) \<noteq> ids ! j"
      by blast
    have "k < length cfgs"
      using k(1) by (simp only: size)
    from nth [OF this] k(2) have "k = j"
      by simp
    with k(3) that(1) have "fst (?ps ! i) \<noteq> ids ! j"
      by blast
    moreover have "fst (?ps ! i) = ids ! i"
      using nth [of i] that by simp
    ultimately show False
      using that(3) by simp
  qed
  have released: "\<exists>before after. construction_log {} ?ps
      = before @ [ConstructChain (j, cfgs ! j), DestroyChain (j, cfgs ! j)] @ after"
    if "i < j" and "j < length cfgs" and "ids ! i = ids ! j" for i j
  proof -
    have "i < length (take j ?ps)" and "take j ?ps ! i = ?ps ! i"
      using that by (simp_all add: size)
    then have "?ps ! i \<in> set (take j ?ps)"
      by (metis nth_mem)
    then have "fst (?ps ! i) \<in> fst ` set (take j ?ps)"
      by (rule imageI)
    then have "fst (?ps ! j) \<in> {} \<union> fst ` set (take j ?ps)"
      using nth [of i] nth [of j] that by simp
    then show ?thesis
      using log_releases [of j ?ps "{}"] that(2) by (simp add: size nth)
  qed
  show ?thesis
  proof (intro conjI allI impI)
    show "construct_chains cfgs 0 (Map.empty, acts)
      = Inr (map_of ?ps, acts @ construction_log {} ?ps)"
      by (rule construct_chains_from_empty [OF assms])
  next
    fix j assume "j < length cfgs"
    then show "ConstructChain (j, cfgs ! j) \<in> set (construction_log {} ?ps)"
      by (rule constructed)
  next
    fix i assume "i < length cfgs" and "\<forall>k<i. ids ! k \<noteq> ids ! i"
    then show "map_of ?ps (ids ! i) = Some (i, cfgs ! i)"
      by (rule first)
  next
    fix i j assume "i < j \<and> j < length cfgs \<and> ids ! i = ids ! j"
    then show "map_of ?ps (ids ! j) \<noteq> Some (j, cfgs ! j)"
      using later [of i j] by blast
  next
    fix i j assume "i < j \<and> j < length cfgs \<and> ids ! i = ids ! j"
    then show "\<exists>before after. construction_log {} ?ps
        = before @ [ConstructChain (j, cfgs ! j), DestroyChain (j, cfgs ! j)] @ after"
      using released [of i j] by blast
  qed
qed


lemmas sample_defs = import_chain_config_def export_chain_config_def second_import_config_def

theorem first_definition_wins_witness:
  "map chain_id [import_chain_config, export_chain_config, second_import_config]
     = map Inr [''import'', ''export'', ''import'']
   \<and> construct_chains [import_chain_config, export_chain_config, second_import_config] 0
       (Map.empty, [])
     = Inr (map_of [(''import'', (0, import_chain_config)), (''export'', (1, export_chain_config)),
                    (''import'', (2, second_import_config))],
            [ConstructChain (0, import_chain_config), ConstructChain (1, export_chain_config),
             ConstructChain (2, second_import_config), DestroyChain (2, second_import_config)])
   \<and> map_of [(''import'', (0, import_chain_config)), (''export'', (1, export_chain_config)),
              (''import'', (2, second_import_config))] ''import''
     = Some (0, import_chain_config)"
  using first_definition_wins [of "[import_chain_config, export_chain_config, second_import_config]"
      "[''import'', ''export'', ''import'']" "[]"]
  by (simp add: sample_defs)

text \<open>
  Claim C10 as the spec states it covers every configuration with two definitions of one id.
  When a definition ahead of them has an id that is not a string, \<open>get<std::string>\<close>
  throws at line 105 right after the first chain is constructed, nothing catches it, and
  the two chains of the shared id are never constructed.
\<close>

theorem same_id_chains_not_constructed:
  "construct_chains [JObject [(''id'', JNumber 7)], import_chain_config, second_import_config] 0
      (Map.empty, [Initialize (JObject [])])
     = Inl (JsonTypeError, [Initialize (JObject []), ConstructChain (0, JObject [(''id'', JNumber 7)])])
   \<and> main (Inr numeric_id_config) None
     = ([Initialize (JObject []), ConstructChain (0, JObject [(''id'', JNumber 7)])],
        Abort JsonTypeError)"
  by (simp add: numeric_id_config_def main_def Let_def)

text \<open>
  Claim C7, as amended. For a configuration that passes the checks and whose chain
  definitions all carry string ids, the registry after construction holds exactly the ids of
  the definitions, so an entry under "import" and one under "export" when, and only when,
  definitions with these ids are configured; nothing checks for them, and the main thread
  goes on to start the worker in either case.
\<close>

theorem registry_holds_configured_ids:
  assumes "json_find config ''chains'' = Some (JArray cfgs)" and "cfgs \<noteq> []"
    and "json_find config ''IFF'' = Some it_iff"
    and "map chain_id cfgs = map Inr ids"
  shows "\<exists>registry acts.
      construct_chains cfgs 0 (Map.empty, [Initialize it_iff]) = Inr (registry, acts)
    \<and> dom registry = set ids
    \<and> (\<exists>rest. fst (main (Inr config) first_frame) = acts @ StartThread # rest)"
proof -
  let ?registry = "map_of (keyed ids 0 cfgs)"
  let ?acts = "[Initialize it_iff] @ construction_log {} (keyed ids 0 cfgs)"
  have built: "construct_chains cfgs 0 (Map.empty, [Initialize it_iff]) = Inr (?registry, ?acts)"
    by (rule construct_chains_from_empty [OF assms(4)])
  have "length ids = length cfgs"
    using assms(4) by (rule map_eq_imp_length_eq [symmetric])
  then have keys: "dom ?registry = set ids"
    using keyed_keys [of ids cfgs 0] by (metis dom_map_of_conv_image_fst set_map)
  have "main (Inr config) first_frame = run_pipeline ?registry first_frame ?acts"
    using assms(1,2,3) built by (cases cfgs) (simp_all add: main_def)
  then have "\<exists>rest. fst (main (Inr config) first_frame) = ?acts @ StartThread # rest"
    by (simp add: run_pipeline_def split: option.splits)
  with built keys show ?thesis
    by blast
qed

theorem registry_holds_configured_ids_witness:
  "json_find sample_config ''chains''
     = Some (JArray [import_chain_config, export_chain_config, second_import_config])
   \<and> [import_chain_config, export_chain_config, second_import_config] \<noteq> []
   \<and> json_find sample_config ''IFF'' = Some (JObject [])
   \<and> map chain_id [import_chain_config, export_chain_config, second_import_config]
     = map Inr [''import'', ''export'', ''import'']
   \<and> (\<exists>registry acts.
        construct_chains [import_chain_config, export_chain_config, second_import_config] 0
          (Map.empty, [Initialize (JObject [])]) = Inr (registry, acts)
      \<and> dom registry = {''import'', ''export''}
      \<and> (\<exists>rest. fst (main (Inr sample_config) (Some 1)) = acts @ StartThread # rest))"
  using registry_holds_configured_ids [of sample_config
      "[import_chain_config, export_chain_config, second_import_config]" "JObject []"
      "[''import'', ''export'', ''import'']" "Some 1"]
  by (simp add: sample_config_def sample_defs insert_commute)

text \<open>
  Claim C7 as the spec states it fails on an accepted configuration with the single chain
  "camera": the registry has neither an "import" nor an "export" entry, and the worker
  thread is started all the same.
\<close>

theorem worker_started_without_chains:
  "construct_chains [JObject [(''id'', JString ''camera'')]] 0 (Map.empty, [Initialize (JObject [])])
     = Inr (Map.empty(''camera'' \<mapsto> (0, JObject [(''id'', JString ''camera'')])),
            [Initialize (JObject []), ConstructChain (0, JObject [(''id'', JString ''camera'')])])
   \<and> (Map.empty(''camera'' \<mapsto> (0, JObject [(''id'', JString ''camera'')]))) ''import'' = None
   \<and> (Map.empty(''camera'' \<mapsto> (0, JObject [(''id'', JString ''camera'')]))) ''export'' = None
   \<and> main (Inr camera_only_config) None
     = ([Initialize (JObject []), ConstructChain (0, JObject [(''id'', JString ''camera'')]),
         StartThread], Abort NullChain)"
  by (simp add: camera_only_config_def main_def run_pipeline_def Let_def)


lemma construct_chains_extends:
  "construct_chains cfgs n (registry, acts) = Inl (f, acts') \<Longrightarrow> \<exists>rest. acts' = acts @ rest"
  "construct_chains cfgs n (registry, acts) = Inr (registry', acts') \<Longrightarrow> \<exists>rest. acts' = acts @ rest"
proof (induction cfgs arbitrary: n registry acts)
  case Nil
  { case 1 then show ?case by simp }
  { case 2 then show ?case by simp }
next
  case (Cons cfg cfgs)
  { case 1
    then show ?case
      using Cons.IH(1) [of "Suc n" _ "acts @ [ConstructChain (n, cfg)]"]
        Cons.IH(1) [of "Suc n" _ "acts @ [ConstructChain (n, cfg), DestroyChain (n, cfg)]"]
      by (fastforce simp: Let_def split: sum.splits option.splits) }
  { case 2
    then show ?case
      using Cons.IH(2) [of "Suc n" _ "acts @ [ConstructChain (n, cfg)]"]
        Cons.IH(2) [of "Suc n" _ "acts @ [ConstructChain (n, cfg), DestroyChain (n, cfg)]"]
      by (fastforce simp: Let_def split: sum.splits option.splits) }
qed

lemma construct_chains_first:
  "construct_chains (cfg # cfgs) n (registry, acts) = Inl (f, acts')
    \<Longrightarrow> \<exists>rest. acts' = acts @ ConstructChain (n, cfg) # rest"
  "construct_chains (cfg # cfgs) n (registry, acts) = Inr (registry', acts')
    \<Longrightarrow> \<exists>rest. acts' = acts @ ConstructChain (n, cfg) # rest"
proof -
  assume "construct_chains (cfg # cfgs) n (registry, acts) = Inl (f, acts')"
  then show "\<exists>rest. acts' = acts @ ConstructChain (n, cfg) # rest"
    using construct_chains_extends(1) [of cfgs "Suc n" _ "acts @ [ConstructChain (n, cfg)]" f acts']
      construct_chains_extends(1)
        [of cfgs "Suc n" _ "acts @ [ConstructChain (n, cfg), DestroyChain (n, cfg)]" f acts']
    by (fastforce simp: Let_def split: sum.splits option.splits)
next
  assume "construct_chains (cfg # cfgs) n (registry, acts) = Inr (registry', acts')"
  then show "\<exists>rest. acts' = acts @ ConstructChain (n, cfg) # rest"
    using construct_chains_extends(2)
        [of cfgs "Suc n" _ "acts @ [ConstructChain (n, cfg)]" registry' acts']
      construct_chains_extends(2)
        [of cfgs "Suc n" _ "acts @ [ConstructChain (n, cfg), DestroyChain (n, cfg)]" registry' acts']
    by (fastforce simp: Let_def split: sum.splits option.splits)
qed

text \<open>
  Claim C9. A configuration that cannot be parsed, has no \<open>chains\<close> member, has one that is
  not an array or is empty, or has no \<open>IFF\<close> member makes \<open>main\<close> write one message to
  the error stream and return \<open>EXIT_FAILURE\<close>, which is not 0, having done nothing else.
  A configuration that passes the checks makes it initialize the subsystem and construct the
  first chain; if \<open>main\<close> then returns, it returns 0; and it does return 0, after
  \<open>iff::finalize\<close>, when the chain definitions have string ids, one of them is "export",
  and one of them is "import" or no frame is exported.
\<close>

theorem configuration_errors_are_fatal:
  "main (Inl what) first_frame
     = ([Cerr (''Invalid configuration provided: '' @ what @ ''\<newline>'')], Exit EXIT_FAILURE)
   \<and> (json_find config ''chains'' = None \<longrightarrow> main (Inr config) first_frame
     = ([Cerr ''Invalid configuration provided: missing `chains` section\<newline>''],
        Exit EXIT_FAILURE))
   \<and> (json_find config ''chains'' = Some it_chains \<and> \<not> is_array it_chains \<longrightarrow> main (Inr config) first_frame
     = ([Cerr ''Invalid configuration provided: section `chains` must be an array\<newline>''],
        Exit EXIT_FAILURE))
   \<and> (json_find config ''chains'' = Some (JArray []) \<longrightarrow> main (Inr config) first_frame
     = ([Cerr ''Invalid configuration provided: section `chains` must not be empty\<newline>''],
        Exit EXIT_FAILURE))
   \<and> (json_find config ''chains'' = Some (JArray (cfg # cfgs)) \<and> json_find config ''IFF'' = None
      \<longrightarrow> main (Inr config) first_frame
     = ([Cerr ''Invalid configuration provided: missing `IFF` section\<newline>''],
        Exit EXIT_FAILURE))
   \<and> EXIT_FAILURE \<noteq> 0
   \<and> (json_find config ''chains'' = Some (JArray (cfg # cfgs))
        \<and> json_find config ''IFF'' = Some it_iff
      \<longrightarrow> (\<exists>rest. fst (main (Inr config) first_frame) = Initialize it_iff # ConstructChain (0, cfg) # rest)
        \<and> (\<forall>status. snd (main (Inr config) first_frame) = Exit status \<longrightarrow> status = 0)
        \<and> (\<forall>ids. map chain_id (cfg # cfgs) = map Inr ids \<and> ''export'' \<in> set ids
                \<and> (''import'' \<in> set ids \<or> first_frame = None)
              \<longrightarrow> snd (main (Inr config) first_frame) = Exit 0
                \<and> last (fst (main (Inr config) first_frame)) = Finalize))"
proof (intro conjI impI allI)
  show "main (Inl what) first_frame
     = ([Cerr (''Invalid configuration provided: '' @ what @ ''\<newline>'')], Exit EXIT_FAILURE)"
    by (simp add: main_def)
next
  assume "json_find config ''chains'' = None"
  then show "main (Inr config) first_frame
     = ([Cerr ''Invalid configuration provided: missing `chains` section\<newline>''],
        Exit EXIT_FAILURE)"
    by (simp add: main_def)
next
  assume "json_find config ''chains'' = Some it_chains \<and> \<not> is_array it_chains"
  then show "main (Inr config) first_frame
     = ([Cerr ''Invalid configuration provided: section `chains` must be an array\<newline>''],
        Exit EXIT_FAILURE)"
    by (simp add: main_def)
next
  assume "json_find config ''chains'' = Some (JArray [])"
  then show "main (Inr config) first_frame
     = ([Cerr ''Invalid configuration provided: section `chains` must not be empty\<newline>''],
        Exit EXIT_FAILURE)"
    by (simp add: main_def)
next
  assume "json_find config ''chains'' = Some (JArray (cfg # cfgs)) \<and> json_find config ''IFF'' = None"
  then show "main (Inr config) first_frame
     = ([Cerr ''Invalid configuration provided: missing `IFF` section\<newline>''],
        Exit EXIT_FAILURE)"
    by (simp add: main_def)
next
  show "EXIT_FAILURE \<noteq> 0"
    by (simp add: EXIT_FAILURE_def)
next
  assume ok: "json_find config ''chains'' = Some (JArray (cfg # cfgs))
        \<and> json_find config ''IFF'' = Some it_iff"
  then have unfold: "main (Inr config) first_frame
      = (case construct_chains (cfg # cfgs) 0 (Map.empty, [Initialize it_iff]) of
           Inl (f, acts) \<Rightarrow> (acts, Abort f)
         | Inr (registry, acts) \<Rightarrow> run_pipeline registry first_frame acts)"
    by (simp add: main_def)
  show "\<exists>rest. fst (main (Inr config) first_frame) = Initialize it_iff # ConstructChain (0, cfg) # rest"
  proof (cases "construct_chains (cfg # cfgs) 0 (Map.empty, [Initialize it_iff])")
    case (Inl failed)
    then obtain f acts' where "construct_chains (cfg # cfgs) 0 (Map.empty, [Initialize it_iff])
        = Inl (f, acts')"
      by (cases failed) simp
    then show ?thesis
      using construct_chains_first(1) [of cfg cfgs 0 Map.empty "[Initialize it_iff]" f acts']
      by (auto simp: unfold)
  next
    case (Inr built)
    then obtain registry acts' where "construct_chains (cfg # cfgs) 0 (Map.empty, [Initialize it_iff])
        = Inr (registry, acts')"
      by (cases built) simp
    then show ?thesis
      using construct_chains_first(2) [of cfg cfgs 0 Map.empty "[Initialize it_iff]" registry acts']
      by (auto simp: unfold run_pipeline_def split: option.splits)
  qed
  show "status = 0" if "snd (main (Inr config) first_frame) = Exit status" for status
    using that unfolding unfold
    by (auto simp: run_pipeline_def EXIT_SUCCESS_def split: sum.splits option.splits)
  show "snd (main (Inr config) first_frame) = Exit 0"
    "last (fst (main (Inr config) first_frame)) = Finalize"
    if ids: "map chain_id (cfg # cfgs) = map Inr ids \<and> ''export'' \<in> set ids
      \<and> (''import'' \<in> set ids \<or> first_frame = None)" for ids
  proof -
    let ?registry = "map_of (keyed ids 0 (cfg # cfgs))"
    have "length ids = length (cfg # cfgs)"
      using ids by (metis map_eq_imp_length_eq)
    then have keys: "dom ?registry = set ids"
      using keyed_keys [of ids "cfg # cfgs" 0] by (metis dom_map_of_conv_image_fst set_map)
    obtain export where export: "?registry ''export'' = Some export"
      using ids keys by blast
    have served: "first_frame = None \<or> (\<exists>import. ?registry ''import'' = Some import)"
      using ids keys by blast
    have built: "main (Inr config) first_frame
        = run_pipeline ?registry first_frame
            ([Initialize it_iff] @ construction_log {} (keyed ids 0 (cfg # cfgs)))"
      using construct_chains_from_empty [of "cfg # cfgs" ids "[Initialize it_iff]"] ids
      by (simp add: unfold)
    show "snd (main (Inr config) first_frame) = Exit 0"
      using export served
      by (auto simp: built run_pipeline_def EXIT_SUCCESS_def split: option.splits)
    show "last (fst (main (Inr config) first_frame)) = Finalize"
      using export served
      by (auto simp: built run_pipeline_def split: option.splits)
  qed
qed

theorem configuration_errors_are_fatal_witness:
  "main (Inl ''syntax error'') (Some 1)
     = ([Cerr ''Invalid configuration provided: syntax error\<newline>''], Exit 1)
   \<and> main (Inr (JObject [(''IFF'', JObject [])])) (Some 1)
     = ([Cerr ''Invalid configuration provided: missing `chains` section\<newline>''], Exit 1)
   \<and> main (Inr (JObject [(''IFF'', JObject []), (''chains'', JString ''import'')])) (Some 1)
     = ([Cerr ''Invalid configuration provided: section `chains` must be an array\<newline>''], Exit 1)
   \<and> main (Inr (JObject [(''IFF'', JObject []), (''chains'', JArray [])])) (Some 1)
     = ([Cerr ''Invalid configuration provided: section `chains` must not be empty\<newline>''], Exit 1)
   \<and> main (Inr (JObject [(''chains'', JArray [import_chain_config])])) (Some 1)
     = ([Cerr ''Invalid configuration provided: missing `IFF` section\<newline>''], Exit 1)
   \<and> snd (main (Inr sample_config) (Some 1)) = Exit 0
   \<and> last (fst (main (Inr sample_config) (Some 1))) = Finalize
   \<and> snd (main (Inr export_only_config) None) = Exit 0"
proof -
  have lone: "json_find export_only_config ''chains'' = Some (JArray (export_chain_config # []))
      \<and> json_find export_only_config ''IFF'' = Some (JObject [])"
    by (simp add: export_only_config_def)
  have lone_ids: "map chain_id (export_chain_config # []) = map Inr [''export'']
      \<and> ''export'' \<in> set [''export'']
      \<and> (''import'' \<in> set [''export''] \<or> (None :: nat option) = None)"
    by (simp add: sample_defs)
  from configuration_errors_are_fatal [where cfg = export_chain_config and cfgs = "[]"
      and it_iff = "JObject []" and config = export_only_config and first_frame = None]
    lone lone_ids
  have without_frames: "snd (main (Inr export_only_config) None) = Exit 0"
    by blast
  have sample: "json_find sample_config ''chains''
        = Some (JArray (import_chain_config # [export_chain_config, second_import_config]))
      \<and> json_find sample_config ''IFF'' = Some (JObject [])"
    by (simp add: sample_config_def)
  have ids: "map chain_id (import_chain_config # [export_chain_config, second_import_config])
        = map Inr [''import'', ''export'', ''import'']
      \<and> ''export'' \<in> set [''import'', ''export'', ''import'']
      \<and> (''import'' \<in> set [''import'', ''export'', ''import''] \<or> Some (1::nat) = None)"
    by (simp add: sample_defs)
  from configuration_errors_are_fatal [where cfg = import_chain_config
      and cfgs = "[export_chain_config, second_import_config]" and it_iff = "JObject []"
      and config = sample_config and first_frame = "Some 1"] sample ids
  have "snd (main (Inr sample_config) (Some 1)) = Exit 0 \<and> last (fst (main (Inr sample_config) (Some 1))) = Finalize"
    by blast
  moreover have "main (Inl ''syntax error'') (Some 1)
     = ([Cerr ''Invalid configuration provided: syntax error\<newline>''], Exit 1)"
    using configuration_errors_are_fatal [where what = "''syntax error''" and first_frame = "Some 1"]
    by (simp add: EXIT_FAILURE_def)
  moreover have "main (Inr (JObject [(''IFF'', JObject [])])) (Some 1)
     = ([Cerr ''Invalid configuration provided: missing `chains` section\<newline>''], Exit 1)"
    using configuration_errors_are_fatal [where config = "JObject [(''IFF'', JObject [])]"
      and first_frame = "Some 1"]
    by (simp add: EXIT_FAILURE_def)
  moreover have "main (Inr (JObject [(''IFF'', JObject []), (''chains'', JString ''import'')])) (Some 1)
     = ([Cerr ''Invalid configuration provided: section `chains` must be an array\<newline>''], Exit 1)"
    using configuration_errors_are_fatal [where it_chains = "JString ''import''"
      and config = "JObject [(''IFF'', JObject []), (''chains'', JString ''import'')]"
      and first_frame = "Some 1"]
    by (simp add: EXIT_FAILURE_def)
  moreover have "main (Inr (JObject [(''IFF'', JObject []), (''chains'', JArray [])])) (Some 1)
     = ([Cerr ''Invalid configuration provided: section `chains` must not be empty\<newline>''], Exit 1)"
    using configuration_errors_are_fatal
      [where config = "JObject [(''IFF'', JObject []), (''chains'', JArray [])]"
        and first_frame = "Some 1"]
    by (simp add: EXIT_FAILURE_def)
  moreover have "main (Inr (JObject [(''chains'', JArray [import_chain_config])])) (Some 1)
     = ([Cerr ''Invalid configuration provided: missing `IFF` section\<newline>''], Exit 1)"
    using configuration_errors_are_fatal [where cfg = import_chain_config and cfgs = "[]"
      and config = "JObject [(''chains'', JArray [import_chain_config])]"
      and first_frame = "Some 1"]
    by (simp add: EXIT_FAILURE_def)
  ultimately show ?thesis
    using without_frames by blast
qed

text \<open>
  With an "export" chain and no "import" chain the process ends at the first exported frame,
  in the callback's call through \<open>chains["import"]\<close>, and \<open>iff::finalize\<close> is not reached.
\<close>

lemma export_without_import:
  "main (Inr export_only_config) (Some 1)
     = ([Initialize (JObject []), ConstructChain (0, export_chain_config), StartThread,
         SetExportCallback (0, export_chain_config),
         Execute (0, export_chain_config) (exporter_command ''on''),
         LogInfo ''Press Enter to terminate the program''],
        Abort NullChain)"
  by (simp add: export_only_config_def sample_defs main_def run_pipeline_def Let_def)

end
